theory Spec2Isabelle
  imports Main
begin

unbundle bit_operations_syntax

section \<open>The SSD1306 driver: bus writer and window manager\<close>

text \<open>
  The embedding follows \<^verbatim>\<open>src/ssd1306/ssd1306.py\<close>. Python integers are \<open>int\<close>,
  Python lists are HOL lists, strings are \<open>string\<close>. The module is read as Python 3 runs
  it: the version test in \<^verbatim>\<open>_bit_shift_right_byte_list\<close> takes its first branch,
  \<^verbatim>\<open>//\<close> is floor division and \<^verbatim>\<open>/\<close> is true division.

  Exceptions the code can raise are values of \<open>error\<close>.
\<close>

datatype error = ValueError | IndexError | ZeroDivisionError | UnboundLocalError | TypeError

definition CONTROL_BYTE :: int where "CONTROL_BYTE = 0x00"
definition DATA_BYTE :: int where "DATA_BYTE = 0x40"
definition LCD_CONTROL_PWR_OFF :: int where "LCD_CONTROL_PWR_OFF = 0xAE"
definition LCD_CONTROL_PWR_ON :: int where "LCD_CONTROL_PWR_ON = 0xAF"
definition JUSTIFY_LEFT :: int where "JUSTIFY_LEFT = 0"
definition JUSTIFY_RIGHT :: int where "JUSTIFY_RIGHT = 1"
definition JUSTIFY_CENTER :: int where "JUSTIFY_CENTER = 2"

text \<open>
  One transaction on the two-wire bus: \<^verbatim>\<open>write_byte_data(addr, cmd, byte)\<close> or
  \<^verbatim>\<open>write_i2c_block_data(addr, cmd, chunk)\<close>.
\<close>

datatype txn = ByteData int int int | BlockData int int "int list"

text \<open>
  The state of an \<^verbatim>\<open>Lcd\<close> object. The bus is the external collaborator: \<open>bus_ok n\<close> says
  whether the \<open>n\<close>-th transaction attempted on the bus succeeds (otherwise it raises),
  \<open>bus_count\<close> counts the transactions attempted so far, and \<open>bus_log\<close> lists the
  transactions that reached the device, oldest first. The write lock is acquired and
  released around every operation and has no effect in a sequential run, so it is not
  part of the state.
\<close>

record Lcd =
  hw_write_addr :: int
  min_col_addr :: int
  max_col_addr :: int
  min_row_addr :: int
  max_row_addr :: int
  gmin_col :: int
  gmax_col :: int
  gmin_row :: int
  gmax_row :: int
  current_col :: int
  current_row :: int
  write_failure :: bool
  power_state :: bool
  enabled :: bool
  bus_ok :: "nat \<Rightarrow> bool"
  bus_count :: nat
  bus_log :: "txn list"

text \<open>\<^verbatim>\<open>Lcd.__init__\<close>; the bus number only selects the bus, whose behaviour is \<open>ok\<close>.\<close>

definition Lcd_init :: "int \<Rightarrow> int \<Rightarrow> int \<Rightarrow> (nat \<Rightarrow> bool) \<Rightarrow> Lcd" where
  "Lcd_init i2c_hw_addr screen_pixel_width screen_pixel_height ok =
     \<lparr> hw_write_addr = i2c_hw_addr div 2,
       min_col_addr = 0,
       max_col_addr = screen_pixel_width - 1,
       min_row_addr = 0,
       max_row_addr = (screen_pixel_height + 7) div 8 - 1,
       gmin_col = 0,
       gmax_col = screen_pixel_width - 1,
       gmin_row = 0,
       gmax_row = (screen_pixel_height + 7) div 8 - 1,
       current_col = 0,
       current_row = 0,
       write_failure = False,
       power_state = False,
       enabled = True,
       bus_ok = ok,
       bus_count = 0,
       bus_log = [] \<rparr>"

text \<open>One attempted bus transaction: it either reaches the device or raises.\<close>

definition bus_write :: "txn \<Rightarrow> Lcd \<Rightarrow> bool \<times> Lcd" where
  "bus_write t l =
     (if bus_ok l (bus_count l)
      then (True, l\<lparr>bus_count := Suc (bus_count l), bus_log := bus_log l @ [t]\<rparr>)
      else (False, l\<lparr>bus_count := Suc (bus_count l)\<rparr>))"

text \<open>
  The \<^verbatim>\<open>except Exception\<close> handler shared by the three write operations: the message is
  printed only when the flag is not yet set, and the flag is set.
\<close>

definition on_write_exception :: "Lcd \<Rightarrow> Lcd" where
  "on_write_exception l = l\<lparr>write_failure := True\<rparr>"

text \<open>
  \<^verbatim>\<open>Lcd._lcd_increment_current\<close>. Python's \<^verbatim>\<open>//\<close> and \<^verbatim>\<open>%\<close> are HOL's \<open>div\<close> and \<open>mod\<close> on
  \<open>int\<close> for a non-zero divisor; for a zero divisor Python raises after
  \<^verbatim>\<open>self._current_col += x\<close> has already been executed.
\<close>

definition lcd_increment_current :: "int \<Rightarrow> Lcd \<Rightarrow> error option \<times> Lcd" where
  "lcd_increment_current x l =
     (let columns = gmax_col l - gmin_col l + 1;
          rows = gmax_row l - gmin_row l + 1;
          l1 = l\<lparr>current_col := current_col l + x\<rparr>
      in if columns = 0 \<or> rows = 0 then (Some ZeroDivisionError, l1)
         else (None,
               l1\<lparr>current_row :=
                    ((current_col l1 div columns) + current_row l1) mod rows + gmin_row l1,
                  current_col := (current_col l1 mod columns) + gmin_col l1\<rparr>))"

text \<open>\<^verbatim>\<open>Lcd._write_control_byte\<close>\<close>

definition write_control_byte :: "int \<Rightarrow> bool \<Rightarrow> Lcd \<Rightarrow> bool \<times> Lcd" where
  "write_control_byte byte force l =
     (if enabled l \<or> force
      then (case bus_write (ByteData (hw_write_addr l) CONTROL_BYTE byte) l of
              (True, l') \<Rightarrow> (True, l')
            | (False, l') \<Rightarrow> (False, on_write_exception l'))
      else (False, l))"

text \<open>\<^verbatim>\<open>Lcd._write_data_byte\<close>: the cursor update is inside the \<^verbatim>\<open>try\<close> block.\<close>

definition write_data_byte :: "int \<Rightarrow> Lcd \<Rightarrow> bool \<times> Lcd" where
  "write_data_byte byte l =
     (if enabled l
      then (case bus_write (ByteData (hw_write_addr l) DATA_BYTE byte) l of
              (False, l') \<Rightarrow> (False, on_write_exception l')
            | (True, l') \<Rightarrow>
                (case lcd_increment_current 1 l' of
                   (Some e, l'') \<Rightarrow> (False, on_write_exception l'')
                 | (None, l'') \<Rightarrow> (True, l'')))
      else (False, l))"

text \<open>
  \<^verbatim>\<open>[sequence[i:i + n] for i in range(0, len(sequence), n)]\<close>: the consecutive slices of
  width \<open>n\<close>.
\<close>

function chunks :: "nat \<Rightarrow> 'a list \<Rightarrow> 'a list list" where
  "chunks n xs = (if n = 0 \<or> xs = [] then [] else take n xs # chunks n (drop n xs))"
  by pat_completeness auto
termination
  by (relation "measure (\<lambda>(n, xs). length xs)") auto

declare chunks.simps [simp del]

text \<open>
  The body of the loop of \<^verbatim>\<open>Lcd._write_sequence\<close> for one chunk; \<open>seqlen\<close> is
  \<^verbatim>\<open>len(sequence)\<close>, the length of the whole sequence.
\<close>

definition write_chunk :: "int \<Rightarrow> nat \<Rightarrow> bool \<times> Lcd \<Rightarrow> int list \<Rightarrow> bool \<times> Lcd" where
  "write_chunk cmd seqlen acc chunk =
     (case acc of (status, l) \<Rightarrow>
        (case bus_write (BlockData (hw_write_addr l) cmd chunk) l of
           (False, l') \<Rightarrow> (status, on_write_exception l')
         | (True, l') \<Rightarrow>
             (if cmd = DATA_BYTE
              then (case lcd_increment_current (int seqlen) l' of
                      (Some e, l'') \<Rightarrow> (status, on_write_exception l'')
                    | (None, l'') \<Rightarrow> (True, l''))
              else (True, l'))))"

text \<open>\<^verbatim>\<open>Lcd._write_sequence\<close>\<close>

definition write_sequence :: "int \<Rightarrow> int list \<Rightarrow> Lcd \<Rightarrow> bool \<times> Lcd" where
  "write_sequence cmd sequence l =
     (if enabled l
      then foldl (write_chunk cmd (length sequence)) (False, l) (chunks 32 sequence)
      else (False, l))"

definition write_control_sequence :: "int list \<Rightarrow> Lcd \<Rightarrow> bool \<times> Lcd" where
  "write_control_sequence sequence l = write_sequence CONTROL_BYTE sequence l"

definition write_data_sequence :: "int list \<Rightarrow> Lcd \<Rightarrow> bool \<times> Lcd" where
  "write_data_sequence sequence l = write_sequence DATA_BYTE sequence l"

text \<open>\<^verbatim>\<open>Lcd._lcd_set_print_area\<close>\<close>

definition lcd_set_print_area :: "int \<Rightarrow> int \<Rightarrow> int \<Rightarrow> int \<Rightarrow> Lcd \<Rightarrow> bool \<times> Lcd" where
  "lcd_set_print_area min_col max_col min_row max_row l =
     (if min_col < 0 \<or> max_col > max_col_addr l \<or> max_col < min_col then (False, l)
      else if min_row < 0 \<or> max_row > max_row_addr l \<or> max_row < min_row then (False, l)
      else (case write_control_sequence [0x21, min_col, max_col, 0x22, min_row, max_row] l of
              (status, l') \<Rightarrow>
                (status,
                 l'\<lparr>gmin_col := min_col, gmax_col := max_col,
                    gmin_row := min_row, gmax_row := max_row,
                    current_col := min_col, current_row := min_row\<rparr>)))"

definition lcd_set_print_area_max :: "Lcd \<Rightarrow> bool \<times> Lcd" where
  "lcd_set_print_area_max l =
     lcd_set_print_area (min_col_addr l) (max_col_addr l) (min_row_addr l) (max_row_addr l) l"

text \<open>\<^verbatim>\<open>Lcd.set_power\<close>, \<^verbatim>\<open>Lcd._force_power_off\<close>, \<^verbatim>\<open>Lcd.disable\<close>\<close>

definition set_power :: "bool \<Rightarrow> Lcd \<Rightarrow> bool \<times> Lcd" where
  "set_power on l =
     (case write_control_byte (if on then LCD_CONTROL_PWR_ON else LCD_CONTROL_PWR_OFF) False l of
        (status, l') \<Rightarrow> (status, if status then l'\<lparr>power_state := on\<rparr> else l'))"

definition force_power_off :: "Lcd \<Rightarrow> bool \<times> Lcd" where
  "force_power_off l =
     (case write_control_byte LCD_CONTROL_PWR_OFF True l of
        (status, l') \<Rightarrow> (status, if status then l'\<lparr>power_state := False\<rparr> else l'))"

definition disable :: "Lcd \<Rightarrow> Lcd" where
  "disable l = (if enabled l then snd (force_power_off (l\<lparr>enabled := False\<rparr>)) else l)"

text \<open>\<^verbatim>\<open>Lcd.clear\<close>: the full window, then 32 all-zero data sequences of 32 bytes.\<close>

definition clear_step :: "bool \<times> Lcd \<Rightarrow> nat \<Rightarrow> bool \<times> Lcd" where
  "clear_step acc i =
     (case acc of (status, l) \<Rightarrow>
        (case write_data_sequence (replicate 32 0) l of
           (ok, l') \<Rightarrow> (if \<not> ok then False else status, l')))"

definition clear :: "Lcd \<Rightarrow> bool \<times> Lcd" where
  "clear l = foldl clear_step (True, snd (lcd_set_print_area_max l)) [0..<32]"

text \<open>
  A run of data writes issued by a caller of the driver: single data bytes and data
  sequences, in any order.
\<close>

datatype data_write = DataByte int | DataSequence "int list"

fun do_write :: "Lcd \<Rightarrow> data_write \<Rightarrow> Lcd" where
  "do_write l (DataByte b) = snd (write_data_byte b l)"
| "do_write l (DataSequence bs) = snd (write_data_sequence bs l)"

definition do_writes :: "Lcd \<Rightarrow> data_write list \<Rightarrow> Lcd" where
  "do_writes l ws = foldl do_write l ws"

text \<open>The cursor lies in the active window.\<close>

definition cursor_in_window :: "Lcd \<Rightarrow> bool" where
  "cursor_in_window l \<longleftrightarrow>
     gmin_col l \<le> current_col l \<and> current_col l \<le> gmax_col l \<and>
     gmin_row l \<le> current_row l \<and> current_row l \<le> gmax_row l"

definition window_of :: "Lcd \<Rightarrow> int \<times> int \<times> int \<times> int" where
  "window_of l = (gmin_col l, gmax_col l, gmin_row l, gmax_row l)"

definition cursor_of :: "Lcd \<Rightarrow> int \<times> int" where
  "cursor_of l = (current_col l, current_row l)"


text \<open>
  The window is a non-empty rectangle and the cursor lies in it: the invariant kept by
  every data write.
\<close>

definition lcd_inv :: "Lcd \<Rightarrow> bool" where
  "lcd_inv l \<longleftrightarrow> gmin_col l \<le> gmax_col l \<and> gmin_row l \<le> gmax_row l \<and> cursor_in_window l"

text \<open>
  The device the plugin creates: \<^verbatim>\<open>Lcd(i2c_hw_addr=0x78, i2c_bus_number=1)\<close>, 128 by 64
  pixels, here on a bus where every transaction succeeds.
\<close>

definition lcd0 :: Lcd where
  "lcd0 = Lcd_init 0x78 128 64 (\<lambda>n. True)"

text \<open>The same device on a bus where every transaction fails.\<close>

definition lcd_fail :: Lcd where
  "lcd_fail = Lcd_init 0x78 128 64 (\<lambda>n. False)"

text \<open>
  The cursor bookkeeping of one successfully written chunk of a sequence of length \<open>L\<close>:
  one call of \<^verbatim>\<open>_lcd_increment_current(len(sequence))\<close> for a data sequence, nothing
  for a control sequence. \<open>sent\<close> is the bus after one successful transaction.
\<close>

definition advance_cursor :: "nat \<Rightarrow> Lcd \<Rightarrow> Lcd" where
  "advance_cursor L l = snd (lcd_increment_current (int L) l)"

definition chunk_effect :: "int \<Rightarrow> nat \<Rightarrow> Lcd \<Rightarrow> Lcd" where
  "chunk_effect cmd L l = (if cmd = DATA_BYTE then advance_cursor L l else l)"

definition sent :: "txn \<Rightarrow> Lcd \<Rightarrow> Lcd" where
  "sent t l = l\<lparr>bus_count := Suc (bus_count l), bus_log := bus_log l @ [t]\<rparr>"


section \<open>Font renderer\<close>

text \<open>
  \<^verbatim>\<open>Lcd.LCD_ASCII\<close>: the glyphs of the code points \<open>0x20\<close> to \<open>0x7F\<close>, five column bytes
  each, and \<^verbatim>\<open>Lcd.char_other\<close>, the glyph of every other character.
\<close>

definition LCD_ASCII_BEGIN :: int where "LCD_ASCII_BEGIN = 0x20"
definition LCD_ASCII_MAX :: int where "LCD_ASCII_MAX = 0x7F"

definition LCD_ASCII :: "int list list" where
  "LCD_ASCII =
    [
     [0x00, 0x00, 0x00, 0x00, 0x00], [0x00, 0x00, 0x5F, 0x00, 0x00], [0x00, 0x07, 0x00, 0x07, 0x00], [0x14, 0x7F, 0x14, 0x7F, 0x14],
     [0x24, 0x2A, 0x7F, 0x2A, 0x12], [0x23, 0x13, 0x08, 0x64, 0x62], [0x36, 0x49, 0x55, 0x22, 0x50], [0x00, 0x05, 0x03, 0x00, 0x00],
     [0x00, 0x1C, 0x22, 0x41, 0x00], [0x00, 0x41, 0x22, 0x1C, 0x00], [0x08, 0x2A, 0x1C, 0x2A, 0x08], [0x08, 0x08, 0x3E, 0x08, 0x08],
     [0x00, 0x50, 0x30, 0x00, 0x00], [0x08, 0x08, 0x08, 0x08, 0x08], [0x00, 0x60, 0x60, 0x00, 0x00], [0x20, 0x10, 0x08, 0x04, 0x02],
     [0x3E, 0x51, 0x49, 0x45, 0x3E], [0x00, 0x42, 0x7F, 0x40, 0x00], [0x42, 0x61, 0x51, 0x49, 0x46], [0x21, 0x41, 0x45, 0x4B, 0x31],
     [0x18, 0x14, 0x12, 0x7F, 0x10], [0x27, 0x45, 0x45, 0x45, 0x39], [0x3C, 0x4A, 0x49, 0x49, 0x30], [0x01, 0x71, 0x09, 0x05, 0x03],
     [0x36, 0x49, 0x49, 0x49, 0x36], [0x06, 0x49, 0x49, 0x29, 0x1E], [0x00, 0x36, 0x36, 0x00, 0x00], [0x00, 0x56, 0x36, 0x00, 0x00],
     [0x00, 0x08, 0x14, 0x22, 0x41], [0x14, 0x14, 0x14, 0x14, 0x14], [0x41, 0x22, 0x14, 0x08, 0x00], [0x02, 0x01, 0x51, 0x09, 0x06],
     [0x32, 0x49, 0x79, 0x41, 0x3E], [0x7E, 0x11, 0x11, 0x11, 0x7E], [0x7F, 0x49, 0x49, 0x49, 0x36], [0x3E, 0x41, 0x41, 0x41, 0x22],
     [0x7F, 0x41, 0x41, 0x22, 0x1C], [0x7F, 0x49, 0x49, 0x49, 0x41], [0x7F, 0x09, 0x09, 0x01, 0x01], [0x3E, 0x41, 0x41, 0x51, 0x32],
     [0x7F, 0x08, 0x08, 0x08, 0x7F], [0x00, 0x41, 0x7F, 0x41, 0x00], [0x20, 0x40, 0x41, 0x3F, 0x01], [0x7F, 0x08, 0x14, 0x22, 0x41],
     [0x7F, 0x40, 0x40, 0x40, 0x40], [0x7F, 0x02, 0x04, 0x02, 0x7F], [0x7F, 0x04, 0x08, 0x10, 0x7F], [0x3E, 0x41, 0x41, 0x41, 0x3E],
     [0x7F, 0x09, 0x09, 0x09, 0x06], [0x3E, 0x41, 0x51, 0x21, 0x5E], [0x7F, 0x09, 0x19, 0x29, 0x46], [0x46, 0x49, 0x49, 0x49, 0x31],
     [0x01, 0x01, 0x7F, 0x01, 0x01], [0x3F, 0x40, 0x40, 0x40, 0x3F], [0x1F, 0x20, 0x40, 0x20, 0x1F], [0x7F, 0x20, 0x18, 0x20, 0x7F],
     [0x63, 0x14, 0x08, 0x14, 0x63], [0x03, 0x04, 0x78, 0x04, 0x03], [0x61, 0x51, 0x49, 0x45, 0x43], [0x00, 0x00, 0x7F, 0x41, 0x41],
     [0x02, 0x04, 0x08, 0x10, 0x20], [0x41, 0x41, 0x7F, 0x00, 0x00], [0x04, 0x02, 0x01, 0x02, 0x04], [0x40, 0x40, 0x40, 0x40, 0x40],
     [0x00, 0x01, 0x02, 0x04, 0x00], [0x20, 0x54, 0x54, 0x54, 0x78], [0x7F, 0x48, 0x44, 0x44, 0x38], [0x38, 0x44, 0x44, 0x44, 0x20],
     [0x38, 0x44, 0x44, 0x48, 0x7F], [0x38, 0x54, 0x54, 0x54, 0x18], [0x08, 0x7E, 0x09, 0x01, 0x02], [0x08, 0x14, 0x54, 0x54, 0x3C],
     [0x7F, 0x08, 0x04, 0x04, 0x78], [0x00, 0x44, 0x7D, 0x40, 0x00], [0x20, 0x40, 0x44, 0x3D, 0x00], [0x00, 0x7F, 0x10, 0x28, 0x44],
     [0x00, 0x41, 0x7F, 0x40, 0x00], [0x7C, 0x04, 0x18, 0x04, 0x78], [0x7C, 0x08, 0x04, 0x04, 0x78], [0x38, 0x44, 0x44, 0x44, 0x38],
     [0x7C, 0x14, 0x14, 0x14, 0x08], [0x08, 0x14, 0x14, 0x18, 0x7C], [0x7C, 0x08, 0x04, 0x04, 0x08], [0x48, 0x54, 0x54, 0x54, 0x20],
     [0x04, 0x3F, 0x44, 0x40, 0x20], [0x3C, 0x40, 0x40, 0x20, 0x7C], [0x1C, 0x20, 0x40, 0x20, 0x1C], [0x3C, 0x40, 0x30, 0x40, 0x3C],
     [0x44, 0x28, 0x10, 0x28, 0x44], [0x0C, 0x50, 0x50, 0x50, 0x3C], [0x44, 0x64, 0x54, 0x4C, 0x44], [0x00, 0x08, 0x36, 0x41, 0x00],
     [0x00, 0x00, 0x7F, 0x00, 0x00], [0x00, 0x41, 0x36, 0x08, 0x00], [0x08, 0x08, 0x2A, 0x1C, 0x08], [0x08, 0x1C, 0x2A, 0x08, 0x08]
    ]"

definition char_other :: "int list" where
  "char_other = [0x7F, 0x7F, 0x7F, 0x7F, 0x7F]"

text \<open>
  \<^verbatim>\<open>Lcd._bit_shift_right_byte_list\<close>, the branch for \<^verbatim>\<open>sys.version_info.major >= 3\<close>:
  the list is read as one big-endian number (\<^verbatim>\<open>int.from_bytes(bytes(lst))\<close>), shifted
  right and written back at the original length (\<^verbatim>\<open>to_bytes\<close>). \<^verbatim>\<open>bytes(lst)\<close> raises
  \<^verbatim>\<open>ValueError\<close> when an element is not in 0..255, and so does a negative shift count.
  The empty list is returned as the empty list. The shifted number is never larger than
  the one read, so \<^verbatim>\<open>to_bytes\<close> never overflows.
\<close>

definition from_bytes :: "int list \<Rightarrow> int" where
  "from_bytes lst = foldl (\<lambda>acc b. acc * 256 + b) 0 lst"

definition to_bytes :: "nat \<Rightarrow> int \<Rightarrow> int list" where
  "to_bytes n v = map (\<lambda>i. (v div 256 ^ (n - 1 - i)) mod 256) [0..<n]"

definition bit_shift_right_byte_list :: "int list \<Rightarrow> int \<Rightarrow> error + int list" where
  "bit_shift_right_byte_list lst num =
     (if list_ex (\<lambda>b. b < 0 \<or> 255 < b) lst then Inl ValueError
      else if num < 0 then Inl ValueError
      else Inr (to_bytes (length lst) (drop_bit (nat num) (from_bytes lst))))"

text \<open>
  \<^verbatim>\<open>Lcd._generate_char_sequence\<close>. \<open>init_masks\<close> is the first loop: it sets the top bits
  of \<^verbatim>\<open>col_mask[0]\<close> and creates the \<open>s\<close> output rows. \<open>set_pixels\<close> is the pair of loops
  over \<open>k\<close> and \<open>l\<close> for one lit source pixel of column \<open>j\<close>, \<open>pixel_row_pass\<close> the loop
  over \<open>j\<close> for one source pixel row, and \<open>glyph_loop\<close> the eight passes, each followed by
  the shift of the column masks.
\<close>

definition init_masks :: "nat \<Rightarrow> nat \<Rightarrow> int list \<times> int list list" where
  "init_masks s width =
     foldl (\<lambda>(col_mask, ret_seq) i.
              (col_mask[0 := (drop_bit 1 (col_mask ! 0)) OR 0x80],
               ret_seq @ [replicate (width * s) 0]))
           (replicate s 0, []) [0..<s]"

definition set_pixel :: "nat \<Rightarrow> int list \<Rightarrow> nat \<Rightarrow> nat \<Rightarrow> int list list \<Rightarrow> nat \<Rightarrow> int list list" where
  "set_pixel s col_mask j k ret_seq l =
     ret_seq[s - k - 1 :=
       (ret_seq ! (s - k - 1))[j * s + l :=
          ((ret_seq ! (s - k - 1)) ! (j * s + l)) OR (col_mask ! k)]]"

definition set_pixels :: "nat \<Rightarrow> int list \<Rightarrow> nat \<Rightarrow> int list list \<Rightarrow> int list list" where
  "set_pixels s col_mask j ret_seq =
     foldl (\<lambda>rs k. foldl (set_pixel s col_mask j k) rs [0..<s]) ret_seq [0..<s]"

definition pixel_row_pass ::
    "nat \<Rightarrow> int list \<Rightarrow> int \<Rightarrow> int list \<Rightarrow> int list list \<Rightarrow> int list list" where
  "pixel_row_pass s seq bitmask col_mask ret_seq =
     foldl (\<lambda>rs j. if (seq ! j) AND bitmask \<noteq> 0 then set_pixels s col_mask j rs else rs)
           ret_seq [0..<length seq]"

fun glyph_loop ::
    "nat \<Rightarrow> int \<Rightarrow> int list \<Rightarrow> int \<Rightarrow> int list \<Rightarrow> int list list \<Rightarrow> error + int list list" where
  "glyph_loop 0 s seq bitmask col_mask ret_seq = Inr ret_seq"
| "glyph_loop (Suc n) s seq bitmask col_mask ret_seq =
     (case bit_shift_right_byte_list col_mask s of
        Inl e \<Rightarrow> Inl e
      | Inr col_mask' \<Rightarrow>
          glyph_loop n s seq (drop_bit 1 bitmask) col_mask'
            (pixel_row_pass (nat s) seq bitmask col_mask ret_seq))"

definition glyph_of :: "char \<Rightarrow> int list" where
  "glyph_of c =
     (let chv = int (of_char c)
      in if chv \<ge> LCD_ASCII_BEGIN \<and> chv \<le> LCD_ASCII_MAX
         then LCD_ASCII ! nat (chv - LCD_ASCII_BEGIN)
         else char_other)"

definition generate_char_sequence :: "char \<Rightarrow> int \<Rightarrow> error + int list list" where
  "generate_char_sequence c text_size_multiplier =
     (let seq = glyph_of c @ [0x00];
          (col_mask, ret_seq) = init_masks (nat text_size_multiplier) (length seq)
      in glyph_loop 8 text_size_multiplier seq 0x80 col_mask ret_seq)"

section \<open>Text layout engine\<close>

text \<open>Python's \<^verbatim>\<open>xs[:n]\<close>, which is also what \<^verbatim>\<open>del xs[n:]\<close> leaves.\<close>

definition py_take :: "int \<Rightarrow> 'a list \<Rightarrow> 'a list" where
  "py_take n xs = (if 0 \<le> n then take (nat n) xs else take (length xs - nat (- n)) xs)"

text \<open>
  The loop of \<^verbatim>\<open>Lcd.write_line\<close> over the characters: the rows of each character are
  appended to the rows collected so far (every character has the same number of rows).
\<close>

fun char_rows :: "string \<Rightarrow> int \<Rightarrow> int list list \<Rightarrow> error + int list list" where
  "char_rows [] s seq = Inr seq"
| "char_rows (c # cs) s seq =
     (case generate_char_sequence c s of
        Inl e \<Rightarrow> Inl e
      | Inr seqChar \<Rightarrow> char_rows cs s (if seq = [] then seqChar else map2 (@) seq seqChar))"

text \<open>
  Rows are added until there are \<open>maxNumRows\<close> of them; \<^verbatim>\<open>seq[0]\<close> raises on an empty
  list.
\<close>

definition pad_rows :: "int \<Rightarrow> int list list \<Rightarrow> error + int list list" where
  "pad_rows maxNumRows seq =
     (if int (length seq) < maxNumRows
      then (case seq of
              [] \<Rightarrow> Inl IndexError
            | r # _ \<Rightarrow>
                Inr (seq @ replicate (nat maxNumRows - length seq) (replicate (length r) 0)))
      else Inr seq)"

text \<open>The padding and the cropping of one row, for a positive number of columns.\<close>

definition add_columns :: "int \<Rightarrow> int \<Rightarrow> int list \<Rightarrow> int list" where
  "add_columns justification columnsToAdd row =
     (if justification = JUSTIFY_RIGHT then replicate (nat columnsToAdd) 0 @ row
      else if justification = JUSTIFY_CENTER
      then (let columnsToAddLeft = columnsToAdd div 2;
                columnsToAddRight = columnsToAdd - columnsToAddLeft
            in replicate (nat columnsToAddLeft) 0 @ row @ replicate (nat columnsToAddRight) 0)
      else row @ replicate (nat columnsToAdd) 0)"

definition remove_columns :: "int \<Rightarrow> int \<Rightarrow> int list \<Rightarrow> int list" where
  "remove_columns justification columnsToRemove row =
     (if justification = JUSTIFY_RIGHT then drop (nat columnsToRemove) row
      else if justification = JUSTIFY_CENTER
      then (let columnsToRemoveLeft = columnsToRemove div 2;
                columnsToRemoveRight = columnsToRemove - columnsToRemoveLeft;
                row1 = drop (nat columnsToRemoveLeft) row
            in take (length row1 - nat columnsToRemoveRight) row1)
      else take (length row - nat columnsToRemove) row)"

text \<open>
  The column adjustment of \<^verbatim>\<open>Lcd.write_line\<close>: both amounts are computed from the first
  row, the second one after the padding.
\<close>

definition fit_columns :: "int \<Rightarrow> int \<Rightarrow> int list list \<Rightarrow> error + int list list" where
  "fit_columns justification maxNumCols seq =
     (case seq of
        [] \<Rightarrow> Inl IndexError
      | r # _ \<Rightarrow>
          (let columnsToAdd = maxNumCols - int (length r);
               seq1 = (if columnsToAdd > 0 then map (add_columns justification columnsToAdd) seq
                       else seq);
               columnsToRemove = int (length (hd seq1)) - maxNumCols
           in Inr (if columnsToRemove > 0
                   then map (remove_columns justification columnsToRemove) seq1
                   else seq1)))"

text \<open>
  \<^verbatim>\<open>Lcd.write_line\<close>. An exception leaves the function before anything is returned; the
  module has no handler for it.
\<close>

definition write_line :: "Lcd \<Rightarrow> string \<Rightarrow> int \<Rightarrow> int \<Rightarrow> int \<Rightarrow> error + (int \<times> Lcd)" where
  "write_line l str row_start text_size_multiplier justification =
     (if row_start < min_row_addr l \<or> row_start > max_row_addr l then Inr (0, l)
      else
        (case char_rows (if str = [] then '' '' else str) text_size_multiplier [] of
           Inl e \<Rightarrow> Inl e
         | Inr seq \<Rightarrow>
             (let row_end0 = row_start + text_size_multiplier - 1;
                  row_end = (if row_end0 > max_row_addr l then max_row_addr l else row_end0);
                  l1 = snd (lcd_set_print_area (min_col_addr l) (max_col_addr l)
                              row_start row_end l);
                  maxNumRows = gmax_row l1 - gmin_row l1 + 1;
                  maxNumCols = gmax_col l1 - gmin_col l1 + 1
              in (case pad_rows maxNumRows seq of
                    Inl e \<Rightarrow> Inl e
                  | Inr seq1 \<Rightarrow>
                      (case fit_columns justification maxNumCols (py_take maxNumRows seq1) of
                         Inl e \<Rightarrow> Inl e
                       | Inr seq2 \<Rightarrow>
                           Inr (1, foldl (\<lambda>l' row. snd (write_data_sequence row l')) l1
                                     seq2))))))"


text \<open>
  \<^verbatim>\<open>str.split(" ")\<close> and its inverse \<^verbatim>\<open>" ".join(words)\<close>. The split of any string has at
  least one word.
\<close>

fun split_sp :: "string \<Rightarrow> string list" where
  "split_sp [] = [[]]"
| "split_sp (c # cs) =
     (if c = CHR '' '' then [] # split_sp cs
      else (case split_sp cs of [] \<Rightarrow> [[c]] | w # ws \<Rightarrow> (c # w) # ws))"

fun join_sp :: "string list \<Rightarrow> string" where
  "join_sp [] = []"
| "join_sp [w] = w"
| "join_sp (w # v # ws) = w @ '' '' @ join_sp (v # ws)"

text \<open>\<^verbatim>\<open>wordSizes[i]\<close>: six units for every character of the word.\<close>

definition word_size :: "string \<Rightarrow> int" where
  "word_size w = 6 * int (length w)"

text \<open>
  The body of the wrapping loop of \<^verbatim>\<open>Lcd.write_block\<close> for one further word, on the
  state \<^verbatim>\<open>(lines, currentLine, currentSize, lineTooLong)\<close>, and the loop itself, which
  starts from the first word.
\<close>

definition wrap_step ::
    "int \<Rightarrow> int \<Rightarrow> string list \<times> nat \<times> int \<times> bool \<Rightarrow> string \<Rightarrow> string list \<times> nat \<times> int \<times> bool" where
  "wrap_step currentTextSize maxWidth st w =
     (case st of (lines, currentLine, currentSize, lineTooLong) \<Rightarrow>
        (let nextSize = currentSize + word_size w + 6
         in if nextSize * currentTextSize > maxWidth
            then (lines @ [w], currentLine + 1, word_size w,
                  (if word_size w * currentTextSize > maxWidth then True else lineTooLong))
            else (lines[currentLine := lines ! currentLine @ '' '' @ w], currentLine,
                  currentSize + word_size w + 6, lineTooLong)))"

definition wrap_words ::
    "int \<Rightarrow> int \<Rightarrow> string \<Rightarrow> string list \<Rightarrow> string list \<times> nat \<times> int \<times> bool" where
  "wrap_words currentTextSize maxWidth w0 ws =
     foldl (wrap_step currentTextSize maxWidth) ([w0], 0, word_size w0, False) ws"

text \<open>
  The search for a scale: \<^verbatim>\<open>while currentTextSize > min_text_size\<close>, on the state
  \<^verbatim>\<open>(currentTextSize, lines, maxLines)\<close>; \<open>w0\<close> and \<open>ws\<close> are the first and the other
  words. \<^verbatim>\<open>write_block\<close> calls it with \<open>1 \<le> min_text_size\<close>, so the divisor is positive.

  \<^verbatim>\<open>maxLines = max_text_size / currentTextSize\<close> is a true division, so \<^verbatim>\<open>maxLines\<close> is a
  float. The loops only compare it with line counts, and an integer is at most the
  quotient of two positive integers exactly when it is at most the floor of the quotient
  (the float quotient is correctly rounded, which keeps this for every scale below
  \<^verbatim>\<open>2**26\<close>), so the state keeps the floor. The one place that needs the value itself to be
  an integer, the slice \<^verbatim>\<open>lines[:maxLines]\<close>, is in \<open>write_block\<close> below.
\<close>

function scale_search ::
    "int \<Rightarrow> int \<Rightarrow> int \<Rightarrow> string \<Rightarrow> string list \<Rightarrow> int \<times> string list \<times> int \<Rightarrow> int \<times> string list \<times> int" where
  "scale_search min_text_size max_text_size maxWidth w0 ws st =
     (case st of (currentTextSize, lines, maxLines) \<Rightarrow>
        (if currentTextSize > min_text_size
         then (let currentTextSize' = currentTextSize - 1;
                   maxLines' = max_text_size div currentTextSize';
                   wrapped = wrap_words currentTextSize' maxWidth w0 ws;
                   lines' = fst wrapped;
                   lineTooLong = snd (snd (snd wrapped))
               in if int (length lines') \<le> maxLines' \<and> \<not> lineTooLong
                  then (currentTextSize', lines', maxLines')
                  else scale_search min_text_size max_text_size maxWidth w0 ws
                         (currentTextSize', lines', maxLines'))
         else (currentTextSize, lines, maxLines)))"
  by pat_completeness auto
termination
  by (relation "measure (\<lambda>(mn, mx, W, w0, ws, (cts, ls, ml)). nat (cts - mn))") auto

declare scale_search.simps [simp del]

text \<open>The vertical centring: \<^verbatim>\<open>while len(lines) + 2 <= maxLines\<close>.\<close>

function center_lines :: "int \<Rightarrow> string list \<Rightarrow> string list" where
  "center_lines maxLines lines =
     (if int (length lines) + 2 \<le> maxLines then center_lines maxLines ([] # lines @ [[]])
      else lines)"
  by pat_completeness auto
termination
  by (relation "measure (\<lambda>(m, ls). nat (m - int (length ls)))") auto

declare center_lines.simps [simp del]

text \<open>The two printing loops of \<^verbatim>\<open>Lcd.write_block\<close>.\<close>

fun print_lines ::
    "Lcd \<Rightarrow> string list \<Rightarrow> int \<Rightarrow> int \<Rightarrow> int \<Rightarrow> int \<Rightarrow> error + (int \<times> int \<times> Lcd)" where
  "print_lines l [] rowNum currentTextSize justification printedCount =
     Inr (printedCount, rowNum, l)"
| "print_lines l (x # xs) rowNum currentTextSize justification printedCount =
     (case write_line l x rowNum currentTextSize justification of
        Inl e \<Rightarrow> Inl e
      | Inr (r, l') \<Rightarrow>
          print_lines l' xs (rowNum + currentTextSize) currentTextSize justification
            (printedCount + r))"

fun clear_rest :: "Lcd \<Rightarrow> int list \<Rightarrow> error + Lcd" where
  "clear_rest l [] = Inr l"
| "clear_rest l (i # rows) =
     (case write_line l [] i 1 JUSTIFY_LEFT of
        Inl e \<Rightarrow> Inl e
      | Inr (r, l') \<Rightarrow> clear_rest l' rows)"

text \<open>
  \<^verbatim>\<open>Lcd.write_block\<close>. When more lines are left than \<^verbatim>\<open>maxLines\<close> allows, the slice
  \<^verbatim>\<open>lines[:maxLines]\<close> raises \<^verbatim>\<open>TypeError\<close>, \<^verbatim>\<open>maxLines\<close> being a float.
\<close>

definition write_block ::
    "Lcd \<Rightarrow> string \<Rightarrow> int \<Rightarrow> int \<Rightarrow> int \<Rightarrow> int \<Rightarrow> error + (int \<times> Lcd)" where
  "write_block l str row_start min_text_size max_text_size justification =
     (if min_text_size > max_text_size \<or> min_text_size \<le> 0 \<or> max_text_size \<le> 0
      then Inr (0, l)
      else
        (case split_sp str of
           [] \<Rightarrow> Inl IndexError
         | w0 # ws \<Rightarrow>
            (let maxWidth = max_col_addr l - min_col_addr l + 1;
                 numberOfSpaces = int (length (w0 # ws)) - 1;
                 totalSize = numberOfSpaces * 6 + sum_list (map word_size (w0 # ws))
             in if totalSize * max_text_size \<le> maxWidth \<or> min_text_size = max_text_size
                   \<or> str = []
                then write_line l str row_start max_text_size justification
                else
                  (case scale_search min_text_size max_text_size maxWidth w0 ws
                          (max_text_size, [], 0) of
                     (currentTextSize, lines0, maxLines) \<Rightarrow>
                       (let lines = center_lines maxLines lines0
                        in if int (length lines) > maxLines then Inl TypeError
                           else
                             (case print_lines l lines row_start currentTextSize justification 0 of
                                Inl e \<Rightarrow> Inl e
                              | Inr (printedCount, rowNum, l') \<Rightarrow>
                                  (case clear_rest l' [rowNum..row_start + max_text_size - 1] of
                                     Inl e \<Rightarrow> Inl e
                                   | Inr l'' \<Rightarrow> Inr (printedCount, l''))))))))"

section \<open>Display scheduler\<close>

text \<open>
  A custom display request: the keyword dictionary handed to \<^verbatim>\<open>display_signal\<close>; a
  field is \<open>None\<close> when the key is absent.
\<close>

record item =
  item_txt :: "string option"
  item_row_start :: "int option"
  item_min_text_size :: "int option"
  item_max_text_size :: "int option"
  item_justification :: "string option"
  item_append :: "bool option"
  item_delay :: "int option"
  item_cancel :: "bool option"

text \<open>\<^verbatim>\<open>dict.get(key, default)\<close>\<close>

definition get_or :: "'a option \<Rightarrow> 'a \<Rightarrow> 'a" where
  "get_or v d = (case v of None \<Rightarrow> d | Some x \<Rightarrow> x)"

text \<open>\<^verbatim>\<open>str.upper()\<close> on the ASCII letters.\<close>

definition upper_char :: "char \<Rightarrow> char" where
  "upper_char c =
     (let n = (of_char c :: nat) in if 97 \<le> n \<and> n \<le> 122 then char_of (n - 32) else c)"

definition justification_lookup :: "string \<Rightarrow> int" where
  "justification_lookup s =
     (if s = ''LEFT'' then JUSTIFY_LEFT
      else if s = ''RIGHT'' then JUSTIFY_RIGHT
      else if s = ''CENTER'' then JUSTIFY_CENTER
      else JUSTIFY_LEFT)"

text \<open>
  The state of the \<^verbatim>\<open>LcdPlugin\<close> thread object. The clock (\<^verbatim>\<open>time.time()\<close>) is read by
  the host; a reading \<open>now\<close> is passed to the operations that use it.
\<close>

record plugin =
  lcd :: Lcd
  custom_display_queue :: "item list"
  displaying_custom :: bool
  custom_display_canceled :: bool
  last_write :: string
  last_sub_val :: string
  idle_entry_time :: "int option"
  idled :: bool
  idle_timeout_seconds :: int

text \<open>\<^verbatim>\<open>LcdPlugin._wake_display\<close>\<close>

definition wake_display :: "int \<Rightarrow> plugin \<Rightarrow> plugin" where
  "wake_display now p =
     (let p1 = p\<lparr>idle_entry_time := Some now\<rparr>
      in if idled p1
         then p1\<lparr>lcd := snd (set_power True (lcd p1)), idled := False\<rparr>
         else p1)"

text \<open>\<^verbatim>\<open>LcdPlugin.display_signal\<close>: the request is inserted at the front of the list.\<close>

definition display_signal :: "item \<Rightarrow> plugin \<Rightarrow> plugin" where
  "display_signal kw p = p\<lparr>custom_display_queue := kw # custom_display_queue p\<rparr>"

text \<open>\<^verbatim>\<open>self._custom_display_queue.pop()\<close>: the last element of the list is taken.\<close>

definition pop_item :: "plugin \<Rightarrow> error + (item \<times> plugin)" where
  "pop_item p =
     (if custom_display_queue p = [] then Inl IndexError
      else Inr (last (custom_display_queue p),
                p\<lparr>custom_display_queue := butlast (custom_display_queue p)\<rparr>))"

text \<open>
  The body of the loop of \<^verbatim>\<open>LcdPlugin._display_custom\<close> after the pop: what is done
  with one request, and the delay it sets.
\<close>

definition display_item :: "int \<Rightarrow> item \<Rightarrow> plugin \<Rightarrow> error + (int \<times> plugin)" where
  "display_item now queue_item p =
     (if \<not> get_or (item_cancel queue_item) False
      then
        (let text = get_or (item_txt queue_item) [];
             row_start = get_or (item_row_start queue_item) 0;
             min_text_size = get_or (item_min_text_size queue_item) 1;
             max_text_size = get_or (item_max_text_size queue_item) 1;
             justification_string =
               map upper_char (get_or (item_justification queue_item) ''LEFT'');
             justification = justification_lookup justification_string;
             append0 = get_or (item_append queue_item) False;
             append = (if \<not> displaying_custom p \<or> custom_display_canceled p
                       then False else append0);
             delay = get_or (item_delay queue_item) 1;
             l1 = (if \<not> append then snd (clear (lcd p)) else lcd p)
         in (case write_block l1 text row_start min_text_size max_text_size justification of
               Inl e \<Rightarrow> Inl e
             | Inr (r, l2) \<Rightarrow>
                 Inr (delay,
                      (wake_display now (p\<lparr>lcd := l2, displaying_custom := True\<rparr>))
                        \<lparr>custom_display_canceled := False\<rparr>)))
      else Inr (0, p\<lparr>custom_display_canceled := True\<rparr>))"

text \<open>
  \<^verbatim>\<open>LcdPlugin._display_custom\<close>: \<^verbatim>\<open>while self._custom_display_queue\<close>. \<open>delay\<close> is
  \<open>None\<close> until a request has assigned it; returning it unassigned raises.
\<close>

function display_custom_loop :: "int \<Rightarrow> int option \<Rightarrow> plugin \<Rightarrow> error + (int \<times> plugin)" where
  "display_custom_loop now delay p =
     (if custom_display_queue p \<noteq> []
      then (case pop_item p of
              Inl e \<Rightarrow> Inl e
            | Inr (queue_item, p1) \<Rightarrow>
                (case display_item now queue_item p1 of
                   Inl e \<Rightarrow> Inl e
                 | Inr (d, p2) \<Rightarrow> display_custom_loop now (Some d) p2))
      else (case delay of None \<Rightarrow> Inl UnboundLocalError | Some d \<Rightarrow> Inr (d, p)))"
  by pat_completeness auto
termination
proof (relation "measure (\<lambda>(now, delay, p). length (custom_display_queue p))")
  show "wf (measure (\<lambda>(now, delay, p). length (custom_display_queue p)))" by simp
next
  fix now :: int and delay :: "int option" and p :: plugin
    and x2 :: "item \<times> plugin" and queue_item :: item and p1 :: plugin
    and x2a :: "int \<times> plugin" and d :: int and p2 :: plugin
  assume ne: "custom_display_queue p \<noteq> []"
    and pop: "pop_item p = Inr x2" "(queue_item, p1) = x2"
    and disp: "display_item now queue_item p1 = Inr x2a" "(d, p2) = x2a"
  have q1: "custom_display_queue p1 = butlast (custom_display_queue p)"
    using pop ne by (auto simp: pop_item_def)
  have q2: "custom_display_queue p2 = custom_display_queue p1"
    using disp
    by (auto simp: display_item_def wake_display_def Let_def
        split: if_splits sum.splits prod.splits)
  show "((now, Some d, p2), now, delay, p)
          \<in> measure (\<lambda>(now, delay, p). length (custom_display_queue p))"
    using ne by (simp add: q1 q2)
qed

declare display_custom_loop.simps [simp del]

definition display_custom :: "int \<Rightarrow> plugin \<Rightarrow> error + (int \<times> plugin)" where
  "display_custom now p = display_custom_loop now None p"

text \<open>
  One pass of the loop of \<^verbatim>\<open>LcdPlugin.run\<close>, up to the wait: the delay to wait for and
  the new state. \<^verbatim>\<open>_display_normal\<close> renders the host's status, which it reads from the
  host module \<^verbatim>\<open>gv\<close>; it is the parameter \<open>display_normal\<close>.
\<close>

definition run_tick :: "(plugin \<Rightarrow> plugin) \<Rightarrow> int \<Rightarrow> plugin \<Rightarrow> error + (int \<times> plugin)" where
  "run_tick display_normal now p =
     (if custom_display_queue p \<noteq> [] then display_custom now p
      else Inr (1, display_normal p))"

text \<open>
  The plugin after \<^verbatim>\<open>LcdPlugin.__init__\<close> and \<^verbatim>\<open>initialize\<close>, before any bus traffic, with
  the device \<open>l\<close>.
\<close>

definition plugin_init :: "Lcd \<Rightarrow> plugin" where
  "plugin_init l =
     \<lparr> lcd = l, custom_display_queue = [], displaying_custom = False,
       custom_display_canceled = False, last_write = [], last_sub_val = [],
       idle_entry_time = None, idled = False, idle_timeout_seconds = 0 \<rparr>"

text \<open>
  The two sides of the queue as operations on the shared list: a producer enqueues with
  \<^verbatim>\<open>display_signal\<close>, the scheduler takes a request with \<^verbatim>\<open>pop\<close> when the list is not
  empty. \<open>queue_run\<close> runs a sequence of them and collects what the scheduler takes.
\<close>

datatype queue_op = Enqueue item | Take

fun queue_run :: "queue_op list \<Rightarrow> plugin \<Rightarrow> item list" where
  "queue_run [] p = []"
| "queue_run (Enqueue kw # ops) p = queue_run ops (display_signal kw p)"
| "queue_run (Take # ops) p =
     (case pop_item p of
        Inl e \<Rightarrow> queue_run ops p
      | Inr (x, p') \<Rightarrow> x # queue_run ops p')"

text \<open>
  The specification's queue, for comparison: a first-in first-out queue with push at the
  back and pop at the front.
\<close>

fun fifo_run :: "queue_op list \<Rightarrow> item list \<Rightarrow> item list" where
  "fifo_run [] q = []"
| "fifo_run (Enqueue kw # ops) q = fifo_run ops (q @ [kw])"
| "fifo_run (Take # ops) q =
     (case q of [] \<Rightarrow> fifo_run ops q | x # q' \<Rightarrow> x # fifo_run ops q')"

text \<open>The device geometry of a constructed \<^verbatim>\<open>Lcd\<close> with at least one pixel each way.\<close>

definition device_ok :: "Lcd \<Rightarrow> bool" where
  "device_ok l \<longleftrightarrow>
     min_col_addr l = 0 \<and> min_row_addr l = 0 \<and> 0 \<le> max_col_addr l \<and> 0 \<le> max_row_addr l"

text \<open>A device nine pixels wide and eight pixels high, on a working bus.\<close>

definition lcd9 :: Lcd where
  "lcd9 = Lcd_init 0x78 9 8 (\<lambda>n. True)"

text \<open>
  The invariant of the wrapping loop, \<open>seen\<close> being the words handled so far: there is a
  line, \<^verbatim>\<open>currentLine\<close> is the index of the last one, and the lines joined with single
  spaces are the words handled so far joined with single spaces.
\<close>

definition wrap_inv :: "string list \<Rightarrow> string list \<times> nat \<times> int \<times> bool \<Rightarrow> bool" where
  "wrap_inv seen st =
     (case st of (lines, currentLine, currentSize, lineTooLong) \<Rightarrow>
        lines \<noteq> [] \<and> currentLine = length lines - 1 \<and> join_sp lines = join_sp seen)"

text \<open>
  Processing a list of requests one after the other, each as \<^verbatim>\<open>_display_custom\<close> processes
  one request, for comparison with the loop: the result is the delay of the last request
  and the state after all of them; \<open>delay\<close> is the delay so far.
\<close>

fun process_requests :: "int \<Rightarrow> item list \<Rightarrow> int \<Rightarrow> plugin \<Rightarrow> error + (int \<times> plugin)" where
  "process_requests now [] delay p = Inr (delay, p)"
| "process_requests now (x # xs) delay p =
     (case display_item now x p of
        Inl e \<Rightarrow> Inl e
      | Inr (d, p') \<Rightarrow> process_requests now xs d p')"

text \<open>
  Two requests, \<^verbatim>\<open>display_signal(txt="A", delay=5)\<close> and \<^verbatim>\<open>display_signal(txt="B", delay=3)\<close>,
  and the plugin with both pending, the first enqueued first.
\<close>

definition request_A :: item where
  "request_A = \<lparr> item_txt = Some ''A'', item_row_start = None, item_min_text_size = None,
                 item_max_text_size = None, item_justification = None, item_append = None,
                 item_delay = Some 5, item_cancel = None \<rparr>"

definition request_B :: item where
  "request_B = \<lparr> item_txt = Some ''B'', item_row_start = None, item_min_text_size = None,
                 item_max_text_size = None, item_justification = None, item_append = None,
                 item_delay = Some 3, item_cancel = None \<rparr>"

definition two_pending :: plugin where
  "two_pending = display_signal request_B (display_signal request_A (plugin_init lcd0))"

section \<open>Properties of the bus writer and window manager\<close>

lemma bus_write_window [simp]:
  "window_of (snd (bus_write t l)) = window_of l"
  "cursor_of (snd (bus_write t l)) = cursor_of l"
  "enabled (snd (bus_write t l)) = enabled l"
  by (simp_all add: bus_write_def window_of_def cursor_of_def)

lemma on_write_exception_window [simp]:
  "window_of (on_write_exception l) = window_of l"
  "cursor_of (on_write_exception l) = cursor_of l"
  "enabled (on_write_exception l) = enabled l"
  by (simp_all add: on_write_exception_def window_of_def cursor_of_def)

lemma increment_window [simp]:
  "window_of (snd (lcd_increment_current x l)) = window_of l"
  by (simp add: lcd_increment_current_def window_of_def Let_def)

lemma increment_in_window:
  assumes "gmin_col l \<le> gmax_col l" "gmin_row l \<le> gmax_row l"
  shows "fst (lcd_increment_current x l) = None"
    and "cursor_in_window (snd (lcd_increment_current x l))"
proof -
  define c where "c = gmax_col l - gmin_col l + 1"
  define r where "r = gmax_row l - gmin_row l + 1"
  have c: "0 < c" and r: "0 < r" using assms by (simp_all add: c_def r_def)
  show "fst (lcd_increment_current x l) = None"
    using c r by (simp add: lcd_increment_current_def Let_def c_def r_def)
  have m1: "0 \<le> (current_col l + x) mod c" "(current_col l + x) mod c < c"
    using c by simp_all
  have m2: "0 \<le> ((current_col l + x) div c + current_row l) mod r"
    "((current_col l + x) div c + current_row l) mod r < r"
    using r by simp_all
  have eq: "snd (lcd_increment_current x l) =
      l\<lparr>current_col := (current_col l + x) mod c + gmin_col l,
        current_row := ((current_col l + x) div c + current_row l) mod r + gmin_row l\<rparr>"
    using c r by (simp add: lcd_increment_current_def Let_def c_def r_def)
  show "cursor_in_window (snd (lcd_increment_current x l))"
    unfolding eq cursor_in_window_def using m1 m2 by (simp add: c_def r_def)
qed

lemma inv_bus_write: "lcd_inv l \<Longrightarrow> lcd_inv (snd (bus_write t l))"
  by (simp add: lcd_inv_def bus_write_def cursor_in_window_def)

lemma inv_exc: "lcd_inv l \<Longrightarrow> lcd_inv (on_write_exception l)"
  by (simp add: lcd_inv_def on_write_exception_def cursor_in_window_def)

lemma inv_increment: "lcd_inv l \<Longrightarrow> lcd_inv (snd (lcd_increment_current x l))"
  using increment_in_window(2)[of l x] increment_window[of x l]
  by (simp add: lcd_inv_def window_of_def)

lemma inv_write_data_byte: "lcd_inv l \<Longrightarrow> lcd_inv (snd (write_data_byte b l))"
  using inv_bus_write[of l "ByteData (hw_write_addr l) DATA_BYTE b"]
    inv_increment[of "snd (bus_write (ByteData (hw_write_addr l) DATA_BYTE b) l)" 1]
  by (auto simp: write_data_byte_def split: prod.splits bool.splits option.splits intro: inv_exc)


lemma concat_chunks: "concat (chunks n xs) = xs \<or> n = 0"
proof (induction n xs rule: chunks.induct)
  case (1 n xs)
  then show ?case by (subst chunks.simps) auto
qed

lemma chunks_bounds: "c \<in> set (chunks n xs) \<Longrightarrow> c \<noteq> [] \<and> length c \<le> n"
proof (induction n xs rule: chunks.induct)
  case (1 n xs)
  from "1.prems" have ne: "\<not> (n = 0 \<or> xs = [])"
    by (subst (asm) chunks.simps) (auto split: if_splits)
  from "1.prems" ne have "c = take n xs \<or> c \<in> set (chunks n (drop n xs))"
    by (subst (asm) chunks.simps) auto
  then show ?case using ne "1.IH" by auto
qed

lemma length_chunks: "0 < n \<Longrightarrow> length (chunks n xs) = (length xs + n - 1) div n"
proof (induction n xs rule: chunks.induct)
  case (1 n xs)
  show ?case
  proof (cases "xs = []")
    case True
    then show ?thesis using "1.prems" by (subst chunks.simps) simp
  next
    case False
    then have ih: "length (chunks n (drop n xs)) = (length xs - n + n - 1) div n"
      using "1.IH" "1.prems" by simp
    have step: "length (chunks n xs) = Suc (length (chunks n (drop n xs)))"
      using False "1.prems" by (subst chunks.simps) simp
    show ?thesis
    proof (cases "n \<le> length xs")
      case True
      then have "(length xs + n - 1) div n = Suc ((length xs - n + n - 1) div n)"
        using "1.prems"
        by (metis Suc_eq_plus1 add.commute add_diff_assoc2 div_add_self1 le_add_diff_inverse2 less_numeral_extra(3) less_one linorder_not_le nat_le_linear ordered_cancel_comm_monoid_diff_class.add_diff_assoc2)
      then show ?thesis using step ih by simp
    next
      case False
      then have d: "drop n xs = []" by simp
      have "chunks n [] = []" by (subst chunks.simps) simp
      then have l1: "length (chunks n xs) = 1" using step d by simp
      from False \<open>xs \<noteq> []\<close> have "n \<le> length xs + n - 1" "length xs + n - 1 < 2 * n"
        by (cases xs; simp)+
      then have "(length xs + n - 1) div n = 1"
        by (metis One_nat_def div_nat_eqI mult.commute mult_2 nat_mult_1_right plus_1_eq_Suc)
      then show ?thesis using l1 by simp
    qed
  qed
qed


lemma inv_write_chunk: "lcd_inv (snd acc) \<Longrightarrow> lcd_inv (snd (write_chunk cmd n acc c))"
proof -
  assume a: "lcd_inv (snd acc)"
  obtain st l where acc: "acc = (st, l)" by (cases acc)
  let ?l1 = "snd (bus_write (BlockData (hw_write_addr l) cmd c) l)"
  have i1: "lcd_inv ?l1" using a acc inv_bus_write by simp
  have i2: "lcd_inv (snd (lcd_increment_current (int n) ?l1))" using i1 by (rule inv_increment)
  show ?thesis
    using i1 i2 inv_exc[OF i1] inv_exc[OF i2]
    by (auto simp: write_chunk_def acc split: prod.splits bool.splits option.splits)
qed

lemma inv_foldl_write_chunk:
  "lcd_inv (snd acc) \<Longrightarrow> lcd_inv (snd (foldl (write_chunk cmd n) acc cs))"
  by (induction cs arbitrary: acc) (simp_all add: inv_write_chunk)

lemma inv_write_sequence: "lcd_inv l \<Longrightarrow> lcd_inv (snd (write_sequence cmd s l))"
  by (simp add: write_sequence_def inv_foldl_write_chunk)

lemma window_write_chunk [simp]:
  "window_of (snd (write_chunk cmd n acc c)) = window_of (snd acc)"
proof -
  obtain st l where acc: "acc = (st, l)" by (cases acc)
  obtain ok l1 where b: "bus_write (BlockData (hw_write_addr l) cmd c) l = (ok, l1)"
    by (cases "bus_write (BlockData (hw_write_addr l) cmd c) l")
  then have l1: "l1 = snd (bus_write (BlockData (hw_write_addr l) cmd c) l)" by simp
  obtain e l2 where i: "lcd_increment_current (int n) l1 = (e, l2)"
    by (cases "lcd_increment_current (int n) l1")
  then have l2: "l2 = snd (lcd_increment_current (int n) l1)" by simp
  have w1: "window_of l1 = window_of l" unfolding l1 by simp
  have w2: "window_of l2 = window_of l1" unfolding l2 by simp
  show ?thesis
    using w1 w2 by (cases ok; cases e) (simp_all add: write_chunk_def acc b i)
qed

lemma window_foldl_write_chunk [simp]:
  "window_of (snd (foldl (write_chunk cmd n) acc cs)) = window_of (snd acc)"
  by (induction cs arbitrary: acc) simp_all

lemma window_write_sequence [simp]:
  "window_of (snd (write_sequence cmd s l)) = window_of l"
  by (simp add: write_sequence_def)

lemma window_write_data_byte [simp]:
  "window_of (snd (write_data_byte b l)) = window_of l"
proof -
  obtain ok l1 where b: "bus_write (ByteData (hw_write_addr l) DATA_BYTE b) l = (ok, l1)"
    by (cases "bus_write (ByteData (hw_write_addr l) DATA_BYTE b) l")
  then have l1: "l1 = snd (bus_write (ByteData (hw_write_addr l) DATA_BYTE b) l)" by simp
  obtain e l2 where i: "lcd_increment_current 1 l1 = (e, l2)"
    by (cases "lcd_increment_current 1 l1")
  then have l2: "l2 = snd (lcd_increment_current 1 l1)" by simp
  have w1: "window_of l1 = window_of l" unfolding l1 by simp
  have w2: "window_of l2 = window_of l1" unfolding l2 by simp
  show ?thesis
    using w1 w2 by (cases ok; cases e) (simp_all add: write_data_byte_def b i)
qed

lemma inv_do_write: "lcd_inv l \<Longrightarrow> lcd_inv (do_write l w)"
  by (cases w) (simp_all add: inv_write_data_byte inv_write_sequence write_data_sequence_def)

lemma window_do_write [simp]: "window_of (do_write l w) = window_of l"
  by (cases w) (simp_all add: write_data_sequence_def)

lemma inv_do_writes: "lcd_inv l \<Longrightarrow> lcd_inv (do_writes l ws)"
  unfolding do_writes_def by (induction ws arbitrary: l) (simp_all add: inv_do_write)

lemma window_do_writes [simp]: "window_of (do_writes l ws) = window_of l"
  unfolding do_writes_def by (induction ws arbitrary: l) simp_all

lemma set_print_area_valid:
  assumes "0 \<le> min_col" "min_col \<le> max_col" "max_col \<le> max_col_addr l"
    and "0 \<le> min_row" "min_row \<le> max_row" "max_row \<le> max_row_addr l"
  shows "window_of (snd (lcd_set_print_area min_col max_col min_row max_row l)) =
           (min_col, max_col, min_row, max_row)"
    and "cursor_of (snd (lcd_set_print_area min_col max_col min_row max_row l)) =
           (min_col, min_row)"
  using assms
  by (simp_all add: lcd_set_print_area_def window_of_def cursor_of_def split: prod.splits)

text \<open>
  Claim C2. After a window-select call with a valid window (inside the device bounds),
  and after any sequence of data-byte and data-sequence writes of any lengths, whatever
  the bus does, the active window is still the selected one and the write cursor lies
  inside it.
\<close>

theorem cursor_never_leaves_window:
  assumes "0 \<le> min_col" "min_col \<le> max_col" "max_col \<le> max_col_addr l"
    and "0 \<le> min_row" "min_row \<le> max_row" "max_row \<le> max_row_addr l"
  shows "(let l' = do_writes (snd (lcd_set_print_area min_col max_col min_row max_row l)) ws
          in window_of l' = (min_col, max_col, min_row, max_row) \<and>
             min_col \<le> current_col l' \<and> current_col l' \<le> max_col \<and>
             min_row \<le> current_row l' \<and> current_row l' \<le> max_row)"
proof -
  let ?l0 = "snd (lcd_set_print_area min_col max_col min_row max_row l)"
  have w: "window_of ?l0 = (min_col, max_col, min_row, max_row)"
    and c: "cursor_of ?l0 = (min_col, min_row)"
    using assms by (rule set_print_area_valid)+
  have "lcd_inv ?l0"
    using w c assms by (simp add: lcd_inv_def cursor_in_window_def window_of_def cursor_of_def)
  then have i: "lcd_inv (do_writes ?l0 ws)" by (rule inv_do_writes)
  have w': "window_of (do_writes ?l0 ws) = (min_col, max_col, min_row, max_row)"
    using w by simp
  show ?thesis
    using i w' by (simp add: Let_def lcd_inv_def cursor_in_window_def window_of_def)
qed

theorem cursor_never_leaves_window_witness:
  "(0::int) \<le> 0 \<and> (0::int) \<le> 127 \<and> 127 \<le> max_col_addr lcd0 \<and>
   (0::int) \<le> 1 \<and> (1::int) \<le> 2 \<and> 2 \<le> max_row_addr lcd0 \<and>
   (let l' = do_writes (snd (lcd_set_print_area 0 127 1 2 lcd0))
               [DataByte 255, DataSequence [1, 2, 3]]
    in window_of l' = (0, 127, 1, 2) \<and>
       0 \<le> current_col l' \<and> current_col l' \<le> 127 \<and>
       1 \<le> current_row l' \<and> current_row l' \<le> 2)"
  using cursor_never_leaves_window [of 0 127 lcd0 1 2 "[DataByte 255, DataSequence [1, 2, 3]]"]
  by (simp add: lcd0_def Lcd_init_def)

lemma chunks_Nil [simp]: "chunks n [] = []"
  by (subst chunks.simps) simp

lemma chunks_short: "0 < n \<Longrightarrow> xs \<noteq> [] \<Longrightarrow> length xs \<le> n \<Longrightarrow> chunks n xs = [xs]"
  by (subst chunks.simps) simp

text \<open>
  Claim C3 (the code departs from it). On the device the plugin creates, with the window
  of columns 0..127 and row-bands 1..2 selected, the cursor is at column 0 of row-band 1;
  one successful data-byte write moves it to column 1 and to row-band 2, although the
  column did not pass the window's last column. The cursor arithmetic divides and
  reduces the absolute column and row-band, not the ones relative to the window, so the
  stepping is row-major only for a window that starts at column 0 and row-band 0.
\<close>

theorem write_data_byte_row_drift:
  "cursor_of (snd (lcd_set_print_area 0 127 1 2 lcd0)) = (0, 1) \<and>
   fst (write_data_byte 255 (snd (lcd_set_print_area 0 127 1 2 lcd0))) = True \<and>
   cursor_of (snd (write_data_byte 255 (snd (lcd_set_print_area 0 127 1 2 lcd0)))) = (1, 2)"
  by (simp add: lcd0_def Lcd_init_def lcd_set_print_area_def write_control_sequence_def
      write_sequence_def chunks_short write_chunk_def bus_write_def CONTROL_BYTE_def DATA_BYTE_def
      write_data_byte_def lcd_increment_current_def cursor_of_def Let_def)

text \<open>
  Claim C4 (the code departs from it). On a bus where every transaction fails, a
  window-select call with a valid window returns failure, and yet the active window and
  the cursor are replaced by the requested ones: the window was columns 0..127 and
  row-bands 0..7 with the cursor at (0, 0), and is afterwards columns 0..127 and
  row-bands 1..2 with the cursor at (0, 1).
\<close>

theorem set_print_area_failure_moves_window:
  "fst (lcd_set_print_area 0 127 1 2 lcd_fail) = False \<and>
   window_of lcd_fail = (0, 127, 0, 7) \<and> cursor_of lcd_fail = (0, 0) \<and>
   window_of (snd (lcd_set_print_area 0 127 1 2 lcd_fail)) = (0, 127, 1, 2) \<and>
   cursor_of (snd (lcd_set_print_area 0 127 1 2 lcd_fail)) = (0, 1)"
  by (simp add: lcd_fail_def Lcd_init_def lcd_set_print_area_def write_control_sequence_def
      write_sequence_def chunks_short write_chunk_def bus_write_def CONTROL_BYTE_def DATA_BYTE_def
      on_write_exception_def cursor_of_def window_of_def Let_def)



lemma increment_frame [simp]:
  "bus_ok (snd (lcd_increment_current x l)) = bus_ok l"
  "bus_count (snd (lcd_increment_current x l)) = bus_count l"
  "bus_log (snd (lcd_increment_current x l)) = bus_log l"
  "hw_write_addr (snd (lcd_increment_current x l)) = hw_write_addr l"
  by (simp_all add: lcd_increment_current_def Let_def)

lemma exc_frame [simp]:
  "bus_ok (on_write_exception l) = bus_ok l"
  "bus_count (on_write_exception l) = bus_count l"
  "bus_log (on_write_exception l) = bus_log l"
  "hw_write_addr (on_write_exception l) = hw_write_addr l"
  by (simp_all add: on_write_exception_def)

lemma bus_write_frame [simp]:
  "bus_ok (snd (bus_write t l)) = bus_ok l"
  "bus_count (snd (bus_write t l)) = Suc (bus_count l)"
  "hw_write_addr (snd (bus_write t l)) = hw_write_addr l"
  by (simp_all add: bus_write_def)

lemma write_chunk_frame [simp]:
  "bus_ok (snd (write_chunk cmd n acc c)) = bus_ok (snd acc) \<and>
   bus_count (snd (write_chunk cmd n acc c)) = Suc (bus_count (snd acc)) \<and>
   hw_write_addr (snd (write_chunk cmd n acc c)) = hw_write_addr (snd acc)"
proof -
  obtain st l where acc: "acc = (st, l)" by (cases acc)
  obtain ok l1 where b: "bus_write (BlockData (hw_write_addr l) cmd c) l = (ok, l1)"
    by (cases "bus_write (BlockData (hw_write_addr l) cmd c) l")
  then have l1: "l1 = snd (bus_write (BlockData (hw_write_addr l) cmd c) l)" by simp
  obtain e l2 where i: "lcd_increment_current (int n) l1 = (e, l2)"
    by (cases "lcd_increment_current (int n) l1")
  then have l2: "l2 = snd (lcd_increment_current (int n) l1)" by simp
  have f1: "bus_ok l1 = bus_ok l" "bus_count l1 = Suc (bus_count l)" "hw_write_addr l1 = hw_write_addr l"
    unfolding l1 by simp_all
  have f2: "bus_ok l2 = bus_ok l1" "bus_count l2 = bus_count l1" "hw_write_addr l2 = hw_write_addr l1"
    unfolding l2 by simp_all
  show ?thesis
    using f1 f2 by (cases ok; cases e) (simp_all add: write_chunk_def acc b i)
qed

lemma foldl_write_chunk_count:
  "bus_count (snd (foldl (write_chunk cmd n) acc cs)) = bus_count (snd acc) + length cs"
  by (induction cs arbitrary: acc) simp_all

lemma sent_frame [simp]:
  "bus_ok (sent t l) = bus_ok l"
  "bus_count (sent t l) = Suc (bus_count l)"
  "bus_log (sent t l) = bus_log l @ [t]"
  "hw_write_addr (sent t l) = hw_write_addr l"
  "window_of (sent t l) = window_of l"
  "cursor_of (sent t l) = cursor_of l"
  by (simp_all add: sent_def window_of_def cursor_of_def)

lemma advance_cursor_frame [simp]:
  "bus_ok (advance_cursor n l) = bus_ok l"
  "bus_count (advance_cursor n l) = bus_count l"
  "bus_log (advance_cursor n l) = bus_log l"
  "hw_write_addr (advance_cursor n l) = hw_write_addr l"
  "window_of (advance_cursor n l) = window_of l"
  by (simp_all add: advance_cursor_def)

lemma chunk_effect_frame [simp]:
  "bus_ok (chunk_effect cmd n l) = bus_ok l"
  "bus_count (chunk_effect cmd n l) = bus_count l"
  "bus_log (chunk_effect cmd n l) = bus_log l"
  "hw_write_addr (chunk_effect cmd n l) = hw_write_addr l"
  "window_of (chunk_effect cmd n l) = window_of l"
  by (simp_all add: chunk_effect_def)

text \<open>What one chunk does when its transaction succeeds.\<close>

lemma write_chunk_ok:
  assumes "bus_ok l (bus_count l)" "gmin_col l \<le> gmax_col l" "gmin_row l \<le> gmax_row l"
  shows "write_chunk cmd n (st, l) c =
     (True, chunk_effect cmd n (sent (BlockData (hw_write_addr l) cmd c) l))"
proof -
  define l1 where "l1 = sent (BlockData (hw_write_addr l) cmd c) l"
  have b: "bus_write (BlockData (hw_write_addr l) cmd c) l = (True, l1)"
    using assms(1) by (simp add: bus_write_def sent_def l1_def)
  have "gmin_col l1 \<le> gmax_col l1" "gmin_row l1 \<le> gmax_row l1"
    using assms(2,3) by (simp_all add: sent_def l1_def)
  then have "fst (lcd_increment_current (int n) l1) = None"
    by (rule increment_in_window(1))
  then have i: "lcd_increment_current (int n) l1 = (None, advance_cursor n l1)"
    by (simp add: advance_cursor_def prod_eq_iff)
  have "write_chunk cmd n (st, l) c = (True, chunk_effect cmd n l1)"
    unfolding write_chunk_def chunk_effect_def by (simp add: b i)
  then show ?thesis by (simp add: l1_def)
qed

lemma chunk_effect_cursor:
  assumes "window_of a = window_of b" "cursor_of a = cursor_of b"
  shows "cursor_of (chunk_effect cmd n a) = cursor_of (chunk_effect cmd n b)"
proof (cases "cmd = DATA_BYTE")
  case False
  then show ?thesis using assms(2) by (simp add: chunk_effect_def)
next
  case True
  have w: "gmin_col a = gmin_col b" "gmax_col a = gmax_col b"
    "gmin_row a = gmin_row b" "gmax_row a = gmax_row b"
    using assms(1) by (simp_all add: window_of_def)
  have c: "current_col a = current_col b" "current_row a = current_row b"
    using assms(2) by (simp_all add: cursor_of_def)
  show ?thesis
    unfolding chunk_effect_def advance_cursor_def lcd_increment_current_def Let_def cursor_of_def
    by (simp add: True w c)
qed

lemma funpow_chunk_effect_window [simp]:
  "window_of ((chunk_effect cmd n ^^ k) a) = window_of a"
  by (induction k) simp_all

lemma funpow_chunk_effect_cursor:
  assumes "window_of a = window_of b" "cursor_of a = cursor_of b"
  shows "cursor_of ((chunk_effect cmd n ^^ k) a) = cursor_of ((chunk_effect cmd n ^^ k) b)"
proof (induction k)
  case 0
  show ?case using assms(2) by simp
next
  case (Suc k)
  have w: "window_of ((chunk_effect cmd n ^^ k) a) = window_of ((chunk_effect cmd n ^^ k) b)"
    using assms(1) by simp
  have "cursor_of (chunk_effect cmd n ((chunk_effect cmd n ^^ k) a)) =
        cursor_of (chunk_effect cmd n ((chunk_effect cmd n ^^ k) b))"
    using w Suc.IH by (rule chunk_effect_cursor)
  then show ?case by simp
qed


lemma foldl_write_chunk_ok:
  assumes "\<forall>k<length cs. bus_ok l (bus_count l + k)"
    and "gmin_col l \<le> gmax_col l" "gmin_row l \<le> gmax_row l"
  shows "fst (foldl (write_chunk cmd n) (st, l) cs) = (st \<or> cs \<noteq> []) \<and>
     bus_log (snd (foldl (write_chunk cmd n) (st, l) cs)) =
        bus_log l @ map (BlockData (hw_write_addr l) cmd) cs \<and>
     cursor_of (snd (foldl (write_chunk cmd n) (st, l) cs)) =
        cursor_of ((chunk_effect cmd n ^^ length cs) l)"
  using assms
proof (induction cs arbitrary: st l)
  case Nil
  then show ?case by simp
next
  case (Cons c cs)
  define l2 where "l2 = chunk_effect cmd n (sent (BlockData (hw_write_addr l) cmd c) l)"
  have ok0: "bus_ok l (bus_count l)" using Cons.prems(1) by force
  have step: "write_chunk cmd n (st, l) c = (True, l2)"
    unfolding l2_def using ok0 Cons.prems(2,3) by (rule write_chunk_ok)
  have fr: "bus_ok l2 = bus_ok l" "bus_count l2 = Suc (bus_count l)"
    "hw_write_addr l2 = hw_write_addr l"
    "bus_log l2 = bus_log l @ [BlockData (hw_write_addr l) cmd c]"
    "window_of l2 = window_of l"
    by (simp_all add: l2_def)
  have oks: "\<forall>k<length cs. bus_ok l2 (bus_count l2 + k)"
  proof (intro allI impI)
    fix k assume "k < length cs"
    then have "Suc k < length (c # cs)" by simp
    then have "bus_ok l (bus_count l + Suc k)" using Cons.prems(1) by blast
    then show "bus_ok l2 (bus_count l2 + k)" unfolding fr by simp
  qed
  have w: "gmin_col l2 \<le> gmax_col l2" "gmin_row l2 \<le> gmax_row l2"
    using fr(5) Cons.prems(2,3) by (simp_all add: window_of_def)
  note ih = Cons.IH [OF oks w, of True]
  have "cursor_of l2 = cursor_of (chunk_effect cmd n l)"
    unfolding l2_def by (rule chunk_effect_cursor) simp_all
  then have geom: "cursor_of ((chunk_effect cmd n ^^ length cs) l2) =
      cursor_of ((chunk_effect cmd n ^^ length cs) (chunk_effect cmd n l))"
    by (intro funpow_chunk_effect_cursor) (simp_all add: fr)
  have sw: "(chunk_effect cmd n ^^ length cs) (chunk_effect cmd n l) =
      (chunk_effect cmd n ^^ length (c # cs)) l"
    by (simp add: funpow_swap1)
  have f: "foldl (write_chunk cmd n) (st, l) (c # cs) = foldl (write_chunk cmd n) (True, l2) cs"
    by (simp add: step)
  show ?case
    unfolding f using ih geom by (simp add: fr sw)
qed

text \<open>
  Claim C8. A sequence of length \<open>L\<close> is cut into consecutive chunks that concatenate
  to the sequence, each non-empty and of at most 32 bytes, \<open>ceil(L/32)\<close> of them; an
  enabled driver attempts one bus transaction per chunk; when these transactions succeed
  they reach the device in order, one block per chunk, and for a data sequence the
  cursor is advanced by the whole length \<open>L\<close> once per chunk, that is \<open>ceil(L/32)\<close>
  times.
\<close>

theorem write_sequence_chunked:
  "concat (chunks 32 s) = s \<and>
   (\<forall>c \<in> set (chunks 32 s). c \<noteq> [] \<and> length c \<le> 32) \<and>
   length (chunks 32 s) = (length s + 31) div 32 \<and>
   (enabled l \<longrightarrow>
      bus_count (snd (write_sequence cmd s l)) = bus_count l + length (chunks 32 s)) \<and>
   (enabled l \<and> (\<forall>k<length (chunks 32 s). bus_ok l (bus_count l + k)) \<and>
    gmin_col l \<le> gmax_col l \<and> gmin_row l \<le> gmax_row l \<longrightarrow>
      bus_log (snd (write_sequence cmd s l)) =
        bus_log l @ map (BlockData (hw_write_addr l) cmd) (chunks 32 s) \<and>
      (cmd = DATA_BYTE \<longrightarrow>
         cursor_of (snd (write_sequence cmd s l)) =
           cursor_of ((advance_cursor (length s) ^^ ((length s + 31) div 32)) l)))"
proof -
  have c1: "concat (chunks 32 s) = s" using concat_chunks [of 32 s] by simp
  have c2: "\<forall>c \<in> set (chunks 32 s). c \<noteq> [] \<and> length c \<le> 32"
    using chunks_bounds by blast
  have c3: "length (chunks 32 s) = (length s + 31) div 32"
    using length_chunks [of 32 s] by simp
  have c4: "enabled l \<longrightarrow>
      bus_count (snd (write_sequence cmd s l)) = bus_count l + length (chunks 32 s)"
    by (simp add: write_sequence_def foldl_write_chunk_count)
  have c5: "bus_log (snd (write_sequence cmd s l)) =
        bus_log l @ map (BlockData (hw_write_addr l) cmd) (chunks 32 s) \<and>
      (cmd = DATA_BYTE \<longrightarrow>
         cursor_of (snd (write_sequence cmd s l)) =
           cursor_of ((advance_cursor (length s) ^^ ((length s + 31) div 32)) l))"
    if h: "enabled l" "\<forall>k<length (chunks 32 s). bus_ok l (bus_count l + k)"
      "gmin_col l \<le> gmax_col l" "gmin_row l \<le> gmax_row l"
  proof -
    note r = foldl_write_chunk_ok [OF h(2) h(3) h(4), of cmd "length s" False]
    have e: "chunk_effect DATA_BYTE (length s) = advance_cursor (length s)"
      by (rule ext) (simp add: chunk_effect_def)
    show ?thesis
      using r h(1) by (auto simp: write_sequence_def c3 e)
  qed
  show ?thesis using c1 c2 c3 c4 c5 by blast
qed

theorem write_sequence_chunked_witness:
  "enabled lcd0 \<and>
   bus_ok lcd0 (bus_count lcd0) \<and> bus_ok lcd0 (bus_count lcd0 + 1) \<and>
   gmin_col lcd0 \<le> gmax_col lcd0 \<and> gmin_row lcd0 \<le> gmax_row lcd0 \<and>
   length (chunks 32 (replicate 40 (0::int))) = 2 \<and>
   bus_count (snd (write_sequence DATA_BYTE (replicate 40 0) lcd0)) = 2 \<and>
   cursor_of (snd (write_sequence DATA_BYTE (replicate 40 0) lcd0)) =
     cursor_of ((advance_cursor 40 ^^ 2) lcd0) \<and>
   cursor_of ((advance_cursor 40 ^^ 2) lcd0) = (80, 0)"
proof -
  have e: "enabled lcd0" "bus_ok lcd0 = (\<lambda>n. True)" "bus_count lcd0 = 0"
    "gmin_col lcd0 \<le> gmax_col lcd0" "gmin_row lcd0 \<le> gmax_row lcd0"
    by (simp_all add: lcd0_def Lcd_init_def)
  have c: "cursor_of ((advance_cursor 40 ^^ 2) lcd0) = (80, 0)"
    by (simp add: numeral_2_eq_2 advance_cursor_def lcd_increment_current_def Let_def
        cursor_of_def lcd0_def Lcd_init_def)
  show ?thesis
    using write_sequence_chunked [of "replicate 40 (0::int)" lcd0 DATA_BYTE] e c
    by simp
qed

section \<open>Properties of the text layout engine\<close>

lemma split_sp_nonempty: "split_sp s \<noteq> []"
  by (induction s) (auto split: list.splits)

lemma join_sp_Cons: "ws \<noteq> [] \<Longrightarrow> join_sp (w # ws) = w @ '' '' @ join_sp ws"
  by (cases ws) simp_all

lemma join_split: "join_sp (split_sp s) = s"
proof (induction s)
  case Nil
  show ?case by simp
next
  case (Cons c cs)
  show ?case
  proof (cases "c = CHR '' ''")
    case True
    then show ?thesis using Cons split_sp_nonempty [of cs] by (simp add: join_sp_Cons)
  next
    case False
    obtain w ws where sp: "split_sp cs = w # ws"
      using split_sp_nonempty [of cs] by (cases "split_sp cs") auto
    have "join_sp ((c # w) # ws) = c # join_sp (w # ws)"
      by (cases ws) simp_all
    then show ?thesis using False Cons sp by simp
  qed
qed

text \<open>
  Claim C7. For every text, starting row-band, justification and scale \<open>s\<close> (a scale is
  at least 1), \<^verbatim>\<open>write_block\<close> with both sizes equal to \<open>s\<close> returns what a direct
  \<^verbatim>\<open>write_line\<close> at size \<open>s\<close> returns (or raises what it raises) and leaves the device,
  with the transactions sent to it, in the same state.
\<close>

theorem write_block_equal_sizes:
  "0 < s \<Longrightarrow> write_block l str row_start s s j = write_line l str row_start s j"
  using split_sp_nonempty [of str]
  by (auto simp: write_block_def Let_def split: list.splits)

theorem write_block_equal_sizes_witness:
  "(0::int) < 2 \<and>
   write_block lcd0 ''Hi'' 0 2 2 JUSTIFY_CENTER = write_line lcd0 ''Hi'' 0 2 JUSTIFY_CENTER"
  using write_block_equal_sizes [of 2 lcd0 "''Hi''" 0 JUSTIFY_CENTER] by simp

lemma join_sp_snoc: "xs \<noteq> [] \<Longrightarrow> join_sp (xs @ [w]) = join_sp xs @ '' '' @ w"
proof (induction xs rule: join_sp.induct)
  case 1 then show ?case by simp
next
  case (2 v) then show ?case by simp
next
  case (3 a b cs) then show ?case by simp
qed

lemma join_sp_last_upd:
  assumes "xs \<noteq> []"
  shows "join_sp (xs[length xs - 1 := xs ! (length xs - 1) @ s]) = join_sp xs @ s"
proof -
  obtain ys y where xs: "xs = ys @ [y]"
    using assms by (cases xs rule: rev_cases) auto
  show ?thesis
  proof (cases "ys = []")
    case True then show ?thesis by (simp add: xs)
  next
    case False then show ?thesis by (simp add: xs join_sp_snoc)
  qed
qed

lemma wrap_step_inv:
  assumes "wrap_inv seen st" "seen \<noteq> []"
  shows "wrap_inv (seen @ [w]) (wrap_step c W st w)"
proof -
  obtain lines cl cs tl where st: "st = (lines, cl, cs, tl)" by (cases st) auto
  from assms st have ne: "lines \<noteq> []" and cl: "cl = length lines - 1"
    and j: "join_sp lines = join_sp seen" by (auto simp: wrap_inv_def)
  show ?thesis
  proof (cases "(cs + word_size w + 6) * c > W")
    case True
    then show ?thesis using ne cl j assms(2)
      by (simp add: wrap_step_def st wrap_inv_def Let_def join_sp_snoc)
  next
    case False
    have "join_sp (lines[length lines - 1 := lines ! (length lines - 1) @ ('' '' @ w)])
            = join_sp lines @ ('' '' @ w)"
      using ne by (rule join_sp_last_upd)
    then show ?thesis using False ne cl j assms(2)
      by (simp add: wrap_step_def st wrap_inv_def Let_def join_sp_snoc)
  qed
qed

lemma foldl_wrap_inv:
  "wrap_inv seen st \<Longrightarrow> seen \<noteq> [] \<Longrightarrow> wrap_inv (seen @ ws) (foldl (wrap_step c W) st ws)"
proof (induction ws arbitrary: seen st)
  case Nil then show ?case by simp
next
  case (Cons w ws)
  have "wrap_inv ((seen @ [w]) @ ws) (foldl (wrap_step c W) (wrap_step c W st w) ws)"
    by (rule Cons.IH) (use Cons.prems in \<open>simp_all add: wrap_step_inv\<close>)
  then show ?case by simp
qed

lemma wrap_words_join: "join_sp (fst (wrap_words c W w0 ws)) = join_sp (w0 # ws)"
proof -
  have "wrap_inv ([w0] @ ws) (foldl (wrap_step c W) ([w0], 0, word_size w0, False) ws)"
    by (rule foldl_wrap_inv) (simp_all add: wrap_inv_def)
  then show ?thesis by (auto simp: wrap_words_def wrap_inv_def split: prod.splits)
qed

lemma scale_search_join:
  "mn < cts \<or> join_sp ls = join_sp (w0 # ws) \<Longrightarrow>
   join_sp (fst (snd (scale_search mn mx W w0 ws (cts, ls, ml)))) = join_sp (w0 # ws)"
proof (induction "nat (cts - mn)" arbitrary: cts ls ml)
  case 0
  then show ?case by (subst scale_search.simps) auto
next
  case (Suc n)
  then have gt: "mn < cts" by linarith
  let ?c = "cts - 1"
  let ?wr = "wrap_words ?c W w0 ws"
  have IH: "join_sp (fst (snd (scale_search mn mx W w0 ws (?c, fst ?wr, mx div ?c)))) = join_sp (w0 # ws)"
  proof (cases "n")
    case 0
    then have "\<not> mn < ?c" using Suc.hyps(2) by linarith
    then show ?thesis by (subst scale_search.simps) (simp add: wrap_words_join)
  next
    case (Suc m)
    show ?thesis by (rule Suc.hyps(1)) (use Suc.hyps(2) in \<open>simp_all add: wrap_words_join\<close>)
  qed
  show ?case
    by (subst scale_search.simps) (use gt IH in \<open>simp add: Let_def wrap_words_join\<close>)
qed

text \<open>
  Claim C10. In the wrapping path of \<^verbatim>\<open>write_block\<close> (the sizes have passed its guard and
  differ, \<open>0 < min_text_size < max_text_size\<close>, so that the search loop runs), the lines
  the search loop leaves, before the blank lines are added and before any line is cut
  off, joined in order with one space between consecutive lines, are exactly the input
  string: the words of the split are all there, in order, and none is divided between
  two lines.
\<close>

theorem wrapped_lines_round_trip:
  "0 < min_text_size \<Longrightarrow> min_text_size < max_text_size \<Longrightarrow> split_sp str = w0 # ws \<Longrightarrow>
   join_sp (fst (snd (scale_search min_text_size max_text_size maxWidth w0 ws
                        (max_text_size, [], 0)))) = str"
  using scale_search_join [where mn = min_text_size and cts = max_text_size and ls = "[]"
      and ?w0.0 = w0 and ws = ws and mx = max_text_size and W = maxWidth and ml = 0]
    join_split [of str]
  by simp

theorem wrapped_lines_round_trip_witness:
  "(0::int) < 1 \<and> (1::int) < 3 \<and> split_sp ''ab cd ef'' = [''ab'', ''cd'', ''ef''] \<and>
   join_sp (fst (snd (scale_search 1 3 20 ''ab'' [''cd'', ''ef''] (3, [], 0)))) = ''ab cd ef''"
  using wrapped_lines_round_trip [of 1 3 "''ab cd ef''" "''ab''" "[''cd'', ''ef'']" 20]
  by simp

text \<open>The search of that example stops at scale 1 with three lines.\<close>

lemma wrapped_lines_example:
  "scale_search 1 3 20 ''ab'' [''cd'', ''ef''] (3, [], 0) = (1, [''ab'', ''cd'', ''ef''], 3)"
  by code_simp

lemma half_odd: "(2 * int k + 1) div 2 = int k"
  by simp

lemma add_columns_center_odd:
  "add_columns JUSTIFY_CENTER (2 * int k + 1) row = replicate k 0 @ row @ replicate (k + 1) 0"
proof -
  have "nat (2 * int k + 1 - int k) = k + 1" by simp
  then show ?thesis
    by (simp add: add_columns_def JUSTIFY_CENTER_def JUSTIFY_RIGHT_def Let_def half_odd
        del: replicate_Suc)
qed

lemma drop_right: "rev (drop n (rev xs)) = take (length xs - n) xs"
  by (simp add: rev_drop)

lemma remove_columns_center_odd:
  "remove_columns JUSTIFY_CENTER (2 * int k + 1) row = rev (drop (k + 1) (rev (drop k row)))"
proof -
  have "nat (2 * int k + 1 - int k) = k + 1" by simp
  then show ?thesis
    unfolding drop_right
    by (simp add: remove_columns_def JUSTIFY_CENTER_def JUSTIFY_RIGHT_def Let_def half_odd
        del: drop_Suc)
qed

text \<open>
  Claim C1, as amended. In the column adjustment of \<^verbatim>\<open>write_line\<close> with centre
  justification, the width of the content being that of its first row: when the content
  is narrower than the window by an odd number \<open>2k + 1\<close> of columns, every row gets \<open>k\<close>
  zero columns on the left and \<open>k + 1\<close> on the right; when it is wider by \<open>2k + 1\<close>
  columns, every row loses \<open>k\<close> columns on the left and \<open>k + 1\<close> on the right. The odd
  column goes to the right in both cases.
\<close>

theorem center_odd_split:
  "(maxNumCols = int (length r) + (2 * int k + 1) \<longrightarrow>
      fit_columns JUSTIFY_CENTER maxNumCols (r # rs) =
        Inr (map (\<lambda>row. replicate k 0 @ row @ replicate (k + 1) 0) (r # rs))) \<and>
   (int (length r) = maxNumCols + (2 * int k + 1) \<longrightarrow>
      fit_columns JUSTIFY_CENTER maxNumCols (r # rs) =
        Inr (map (\<lambda>row. rev (drop (k + 1) (rev (drop k row)))) (r # rs)))"
proof (intro conjI impI)
  assume m: "maxNumCols = int (length r) + (2 * int k + 1)"
  have a: "maxNumCols - int (length r) = 2 * int k + 1" using m by simp
  have l: "int (length (add_columns JUSTIFY_CENTER (2 * int k + 1) r)) = maxNumCols"
    using m by (simp add: add_columns_center_odd)
  show "fit_columns JUSTIFY_CENTER maxNumCols (r # rs) =
        Inr (map (\<lambda>row. replicate k 0 @ row @ replicate (k + 1) 0) (r # rs))"
    unfolding fit_columns_def using a l
    by (simp add: Let_def add_columns_center_odd del: replicate_Suc)
next
  assume m: "int (length r) = maxNumCols + (2 * int k + 1)"
  have a: "\<not> maxNumCols - int (length r) > 0" using m by simp
  have b: "int (length r) - maxNumCols = 2 * int k + 1" using m by simp
  show "fit_columns JUSTIFY_CENTER maxNumCols (r # rs) =
        Inr (map (\<lambda>row. rev (drop (k + 1) (rev (drop k row)))) (r # rs))"
    unfolding fit_columns_def using a b
    by (simp add: Let_def remove_columns_center_odd del: drop_Suc)
qed

theorem center_odd_split_witness:
  "fit_columns JUSTIFY_CENTER 9 [[0x7E, 0x11, 0x11, 0x11, 0x7E, 0x00]] =
     Inr [[0, 0x7E, 0x11, 0x11, 0x11, 0x7E, 0x00, 0, 0]] \<and>
   fit_columns JUSTIFY_CENTER 3 [[0x7E, 0x11, 0x12, 0x13, 0x7E, 0x00]] =
     Inr [[0x11, 0x12, 0x13]]"
  using center_odd_split [of 9 "[0x7E, 0x11, 0x11, 0x11, 0x7E, 0x00]" 1 "[]"]
    center_odd_split [of 3 "[0x7E, 0x11, 0x12, 0x13, 0x7E, 0x00]" 1 "[]"]
  by (simp add: numeral_eq_Suc)

text \<open>
  Claim C1 as stated fails for the padding. On a device nine columns wide the letter A
  at scale 1 is six columns wide, three less than the window (\<open>k = 1\<close>). The claim puts
  two zero columns on the left and one on the right; the row sent to the device has one
  zero column on the left and two on the right.
\<close>

theorem center_pad_odd_goes_right:
  "generate_char_sequence CHR ''A'' 1 = Inr [[0x7E, 0x11, 0x11, 0x11, 0x7E, 0x00]] \<and>
   fst (projr (write_line lcd9 ''A'' 0 1 JUSTIFY_CENTER)) = 1 \<and>
   bus_log (snd (projr (write_line lcd9 ''A'' 0 1 JUSTIFY_CENTER))) =
     [BlockData 0x3C 0x00 [0x21, 0, 8, 0x22, 0, 0],
      BlockData 0x3C 0x40 ([0] @ [0x7E, 0x11, 0x11, 0x11, 0x7E, 0x00] @ [0, 0])]"
  by code_simp

text \<open>
  The renderer returns for every scale \<open>s \<ge> 0\<close>, with \<open>s\<close> rows: the column masks stay
  bytes, so the shift never raises, and the pixel loops only update rows in place.
\<close>

lemma length_to_bytes: "length (to_bytes n v) = n"
  by (simp add: to_bytes_def)

lemma to_bytes_range: "b \<in> set (to_bytes n v) \<Longrightarrow> 0 \<le> b \<and> b \<le> 255"
  by (auto simp: to_bytes_def)

lemma bit_shift_ok:
  assumes "\<forall>b\<in>set xs. 0 \<le> b \<and> b \<le> 255" "0 \<le> s"
  shows "\<exists>ys. bit_shift_right_byte_list xs s = Inr ys \<and> length ys = length xs \<and>
              (\<forall>b\<in>set ys. 0 \<le> b \<and> b \<le> 255)"
proof -
  have "\<not> list_ex (\<lambda>b. b < 0 \<or> 255 < b) xs"
    using assms(1) by (auto simp: list_ex_iff)
  then show ?thesis
    using assms(2) to_bytes_range by (auto simp: bit_shift_right_byte_list_def length_to_bytes)
qed

lemma mask_byte:
  fixes x :: int
  assumes "0 \<le> x" "x \<le> 255"
  shows "0 \<le> drop_bit 1 x OR 0x80 \<and> drop_bit 1 x OR 0x80 \<le> 255"
proof -
  have 1: "0 \<le> drop_bit 1 x" using assms by simp
  have "drop_bit 1 x < 2 ^ 8" using assms by (simp add: drop_bit_eq_div)
  moreover have "(0x80::int) < 2 ^ 8" by simp
  ultimately have "drop_bit 1 x OR 0x80 < 2 ^ 8" using 1 by (intro OR_upper) auto
  then show ?thesis using 1 by simp
qed

lemma init_masks_fold:
  fixes cm0 cm :: "int list" and rs0 rs :: "int list list"
  assumes "foldl (\<lambda>(col_mask, ret_seq) i.
              (col_mask[0 := (drop_bit 1 (col_mask ! 0)) OR 0x80],
               ret_seq @ [replicate m 0])) (cm0, rs0) xs = (cm, rs)"
    and "\<forall>b\<in>set cm0. 0 \<le> b \<and> b \<le> 255"
  shows "length cm = length cm0 \<and> length rs = length rs0 + length xs \<and>
         (\<forall>b\<in>set cm. 0 \<le> b \<and> b \<le> 255)"
  using assms
proof (induction xs arbitrary: cm0 rs0)
  case Nil then show ?case by simp
next
  case (Cons x xs)
  let ?cm1 = "cm0[0 := (drop_bit 1 (cm0 ! 0)) OR 0x80]"
  have r: "\<forall>b\<in>set ?cm1. 0 \<le> b \<and> b \<le> 255"
  proof (cases cm0)
    case Nil then show ?thesis by simp
  next
    case (Cons a as)
    then show ?thesis using Cons.prems(2) mask_byte [of a] by auto
  qed
  have "foldl (\<lambda>(col_mask, ret_seq) i.
              (col_mask[0 := (drop_bit 1 (col_mask ! 0)) OR 0x80],
               ret_seq @ [replicate m 0])) (?cm1, rs0 @ [replicate m 0]) xs = (cm, rs)"
    using Cons.prems(1) by simp
  from Cons.IH [OF this r] show ?case by simp
qed

lemma init_masks_shape:
  assumes "init_masks s w = (cm, rs)"
  shows "length cm = s \<and> length rs = s \<and> (\<forall>b\<in>set cm. 0 \<le> b \<and> b \<le> 255)"
  using init_masks_fold [of "w * s" "replicate s 0" "[]" "[0..<s]" cm rs] assms
  by (simp add: init_masks_def)

lemma length_foldl_keep:
  "(\<And>acc x. length (f acc x) = length acc) \<Longrightarrow> length (foldl f acc xs) = length acc"
  by (induction xs arbitrary: acc) simp_all

lemma length_set_pixels: "length (set_pixels s cm j rs) = length rs"
  unfolding set_pixels_def
  by (rule length_foldl_keep) (simp add: length_foldl_keep set_pixel_def)

lemma length_pixel_row_pass: "length (pixel_row_pass s seq bm cm rs) = length rs"
  unfolding pixel_row_pass_def
  by (rule length_foldl_keep) (simp add: length_set_pixels)

lemma glyph_loop_shape:
  assumes "\<forall>b\<in>set cm. 0 \<le> b \<and> b \<le> 255" "0 \<le> s"
  shows "\<exists>rows. glyph_loop n s seq bm cm rs = Inr rows \<and> length rows = length rs"
  using assms(1)
proof (induction n arbitrary: bm cm rs)
  case 0 then show ?case by simp
next
  case (Suc n)
  from bit_shift_ok [OF Suc.prems assms(2)] obtain cm' where
    1: "bit_shift_right_byte_list cm s = Inr cm'" and 2: "\<forall>b\<in>set cm'. 0 \<le> b \<and> b \<le> 255"
    by blast
  from Suc.IH [OF 2, where bm = "drop_bit 1 bm" and rs = "pixel_row_pass (nat s) seq bm cm rs"]
  show ?case by (simp add: 1 length_pixel_row_pass)
qed

lemma generate_char_sequence_shape:
  assumes "0 \<le> s"
  shows "\<exists>rows. generate_char_sequence c s = Inr rows \<and> length rows = nat s"
proof -
  obtain cm rs where i: "init_masks (nat s) (length (glyph_of c @ [0x00])) = (cm, rs)"
    by (cases "init_masks (nat s) (length (glyph_of c @ [0x00]))") auto
  from init_masks_shape [OF i] have l: "length rs = nat s"
    and r: "\<forall>b\<in>set cm. 0 \<le> b \<and> b \<le> 255" by auto
  from glyph_loop_shape [OF r assms, where n = 8 and seq = "glyph_of c @ [0x00]"
      and bm = "0x80" and rs = rs]
  show ?thesis using i l by (simp add: generate_char_sequence_def Let_def)
qed

lemma char_rows_shape:
  assumes "0 \<le> s" "(seq = [] \<and> cs \<noteq> []) \<or> length seq = nat s"
  shows "\<exists>rows. char_rows cs s seq = Inr rows \<and> length rows = nat s"
  using assms(2)
proof (induction cs arbitrary: seq)
  case Nil then show ?case by simp
next
  case (Cons c cs)
  from generate_char_sequence_shape [OF assms(1), of c] obtain sc where
    g: "generate_char_sequence c s = Inr sc" and l: "length sc = nat s" by blast
  let ?seq' = "if seq = [] then sc else map2 (@) seq sc"
  have "length ?seq' = nat s" using Cons.prems l by auto
  from Cons.IH [of ?seq'] this show ?case by (simp add: g)
qed

text \<open>
  Claim C9. On a constructed device (the column and row-band addresses start at 0 and
  there is at least one column and one row-band), for every text, justification and
  scale \<open>s \<ge> 1\<close>, and whatever the bus does, also when every transaction fails,
  \<^verbatim>\<open>write_line\<close> returns, and what it returns depends on \<open>row_start\<close> only: 1 when
  \<open>row_start\<close> is a row-band of the device, 0 otherwise.
\<close>

theorem write_line_return_value:
  assumes "device_ok l" "1 \<le> s"
  shows "\<exists>l'. write_line l str row_start s j =
           Inr (if min_row_addr l \<le> row_start \<and> row_start \<le> max_row_addr l then 1 else 0, l')"
proof (cases "min_row_addr l \<le> row_start \<and> row_start \<le> max_row_addr l")
  case False
  then show ?thesis by (auto simp: write_line_def)
next
  case True
  let ?str = "if str = [] then '' '' else str"
  have "?str \<noteq> []" by simp
  with char_rows_shape [where s = s and seq = "[]" and cs = ?str] assms(2) obtain seq where
    c: "char_rows ?str s [] = Inr seq" and ls: "length seq = nat s" by auto
  have ne: "seq \<noteq> []" using ls assms(2) by auto
  define row_end where "row_end = (if row_start + s - 1 > max_row_addr l then max_row_addr l
                                    else row_start + s - 1)"
  define l1 where "l1 = snd (lcd_set_print_area (min_col_addr l) (max_col_addr l)
                              row_start row_end l)"
  have w: "window_of l1 = (min_col_addr l, max_col_addr l, row_start, row_end)"
    unfolding l1_def
    by (rule set_print_area_valid(1))
       (use assms True in \<open>auto simp: device_ok_def row_end_def\<close>)
  have rows: "gmax_row l1 - gmin_row l1 + 1 = row_end - row_start + 1"
    using w by (simp add: window_of_def)
  have pos: "1 \<le> row_end - row_start + 1"
    using assms True by (auto simp: row_end_def)
  have "\<exists>seq1. pad_rows (row_end - row_start + 1) seq = Inr seq1 \<and> seq1 \<noteq> []"
    using ne by (cases seq) (auto simp: pad_rows_def)
  then obtain seq1 where p: "pad_rows (row_end - row_start + 1) seq = Inr seq1"
    and n1: "seq1 \<noteq> []" by blast
  have ne1: "py_take (row_end - row_start + 1) seq1 \<noteq> []"
    using n1 pos by (cases seq1) (auto simp: py_take_def)
  then obtain seq2 where f: "fit_columns j (gmax_col l1 - gmin_col l1 + 1)
                               (py_take (row_end - row_start + 1) seq1) = Inr seq2"
    by (cases "py_take (row_end - row_start + 1) seq1") (auto simp: fit_columns_def Let_def)
  show ?thesis
    using True c p f rows
    unfolding write_line_def Let_def l1_def [symmetric] row_end_def [symmetric]
    by (simp add: l1_def [symmetric] row_end_def [symmetric])
qed

theorem write_line_return_value_witness:
  "device_ok lcd_fail \<and> (1::int) \<le> 2 \<and>
   (\<exists>l'. write_line lcd_fail ''Hi'' 3 2 JUSTIFY_CENTER = Inr (1, l')) \<and>
   (\<exists>l'. write_line lcd_fail ''Hi'' 8 2 JUSTIFY_CENTER = Inr (0, l'))"
proof -
  have d: "device_ok lcd_fail"
    by (simp add: device_ok_def lcd_fail_def Lcd_init_def)
  have r: "min_row_addr lcd_fail = 0" "max_row_addr lcd_fail = 7"
    by (simp_all add: lcd_fail_def Lcd_init_def)
  show ?thesis
    using d write_line_return_value [OF d, of 2 "''Hi''" 3 JUSTIFY_CENTER]
      write_line_return_value [OF d, of 2 "''Hi''" 8 JUSTIFY_CENTER]
    by (simp add: r)
qed

section \<open>Properties of the display scheduler\<close>

text \<open>
  Claim C6. For every interleaving of producers enqueueing requests (insert at the
  front of the list) and the scheduler taking requests (pop from the back, when there is
  one), the scheduler takes the requests that a first-in first-out queue with push at
  the back and pop at the front hands out, in the same order; the list read backwards
  is the queue. So a request enqueued earlier is always processed earlier.
\<close>

theorem custom_queue_is_fifo:
  "queue_run ops p = fifo_run ops (rev (custom_display_queue p))"
proof (induction ops arbitrary: p)
  case Nil
  show ?case by simp
next
  case (Cons op ops)
  show ?case
  proof (cases op)
    case (Enqueue kw)
    then show ?thesis using Cons [of "display_signal kw p"] by (simp add: display_signal_def)
  next
    case Take
    show ?thesis
    proof (cases "custom_display_queue p = []")
      case True
      then show ?thesis using Take Cons [of p] by (simp add: pop_item_def)
    next
      case False
      define p' where "p' = p\<lparr>custom_display_queue := butlast (custom_display_queue p)\<rparr>"
      have pop: "pop_item p = Inr (last (custom_display_queue p), p')"
        using False by (simp add: pop_item_def p'_def)
      have "rev (custom_display_queue p) =
          rev (butlast (custom_display_queue p) @ [last (custom_display_queue p)])"
        using False by simp
      then have r: "rev (custom_display_queue p) =
          last (custom_display_queue p) # rev (custom_display_queue p')"
        by (simp add: p'_def)
      have "queue_run (Take # ops) p = last (custom_display_queue p) # queue_run ops p'"
        using pop by simp
      also have "\<dots> = last (custom_display_queue p) #
          fifo_run ops (rev (custom_display_queue p'))"
        using Cons [of p'] by simp
      also have "\<dots> = fifo_run (Take # ops) (rev (custom_display_queue p))"
        unfolding r by simp
      finally show ?thesis using Take by simp
    qed
  qed
qed

lemma display_item_queue:
  "display_item now x (p\<lparr>custom_display_queue := q\<rparr>) =
     (case display_item now x p of
        Inl e \<Rightarrow> Inl e
      | Inr (d, p') \<Rightarrow> Inr (d, p'\<lparr>custom_display_queue := q\<rparr>))"
  by (simp add: display_item_def wake_display_def Let_def split: sum.splits prod.splits)

lemma display_item_keeps_queue:
  "display_item now x p = Inr (d, p') \<Longrightarrow> custom_display_queue p' = custom_display_queue p"
  by (auto simp: display_item_def wake_display_def Let_def split: if_splits sum.splits prod.splits)

lemma process_requests_keeps_queue:
  "process_requests now xs d p = Inr (d', p') \<Longrightarrow>
   custom_display_queue p' = custom_display_queue p"
proof (induction xs arbitrary: d p)
  case Nil then show ?case by simp
next
  case (Cons x xs)
  from Cons.prems obtain d1 p1 where
    1: "display_item now x p = Inr (d1, p1)" and 2: "process_requests now xs d1 p1 = Inr (d', p')"
    by (auto split: sum.splits prod.splits)
  show ?case using Cons.IH [OF 2] display_item_keeps_queue [OF 1] by simp
qed

lemma loop_step:
  assumes "custom_display_queue p \<noteq> []"
  shows "display_custom_loop now delay p =
           (case display_item now (last (custom_display_queue p))
                   (p\<lparr>custom_display_queue := []\<rparr>) of
              Inl e \<Rightarrow> Inl e
            | Inr (d, p') \<Rightarrow>
                display_custom_loop now (Some d)
                  (p'\<lparr>custom_display_queue := butlast (custom_display_queue p)\<rparr>))"
proof -
  let ?q = "custom_display_queue p"
  have pop: "pop_item p = Inr (last ?q, p\<lparr>custom_display_queue := butlast ?q\<rparr>)"
    using assms by (simp add: pop_item_def)
  have d: "display_item now (last ?q) (p\<lparr>custom_display_queue := butlast ?q\<rparr>) =
             (case display_item now (last ?q) (p\<lparr>custom_display_queue := []\<rparr>) of
                Inl e \<Rightarrow> Inl e
              | Inr (d, p') \<Rightarrow> Inr (d, p'\<lparr>custom_display_queue := butlast ?q\<rparr>))"
    using display_item_queue [where now = now and x = "last ?q"
        and p = "p\<lparr>custom_display_queue := []\<rparr>" and q = "butlast ?q"]
    by simp
  show ?thesis
    by (subst display_custom_loop.simps)
       (simp add: assms pop d split: sum.splits prod.splits)
qed

lemma loop_is_process_requests:
  "display_custom_loop now (Some d0) p =
     process_requests now (rev (custom_display_queue p)) d0 (p\<lparr>custom_display_queue := []\<rparr>)"
proof (induction "length (custom_display_queue p)" arbitrary: p d0)
  case 0
  then have e: "custom_display_queue p = []" by simp
  then have "p\<lparr>custom_display_queue := []\<rparr> = p" by (cases p) simp
  then show ?case using e by (subst display_custom_loop.simps) simp
next
  case (Suc n)
  let ?q = "custom_display_queue p"
  let ?p0 = "p\<lparr>custom_display_queue := []\<rparr>"
  have ne: "?q \<noteq> []" using Suc.hyps(2) by auto
  have r: "rev ?q = last ?q # rev (butlast ?q)"
  proof -
    have "rev ?q = rev (butlast ?q @ [last ?q])" using ne by simp
    then show ?thesis by simp
  qed
  have step: "display_custom_loop now (Some d) (p'\<lparr>custom_display_queue := butlast ?q\<rparr>)
                = process_requests now (rev (butlast ?q)) d p'"
    if "display_item now (last ?q) ?p0 = Inr (d, p')" for d p'
  proof -
    have q': "custom_display_queue p' = []"
      using display_item_keeps_queue [OF that] by simp
    let ?p2 = "p'\<lparr>custom_display_queue := butlast ?q\<rparr>"
    have len: "n = length (custom_display_queue ?p2)" using Suc.hyps(2) by simp
    have rst: "?p2\<lparr>custom_display_queue := []\<rparr> = p'" using q' by (cases p') simp
    show ?thesis using Suc.hyps(1) [OF len, of d] rst by simp
  qed
  show ?case
    unfolding loop_step [OF ne] r process_requests.simps
    using step by (auto split: sum.splits)
qed

text \<open>
  Claim C5, as amended. At every scheduler tick at which the custom-message queue is not
  empty, every pending request is taken from the queue and processed during that tick,
  the oldest first: the tick does what processing the pending requests one after the
  other, from the oldest to the newest, does, and returns the delay of the last of them
  (whatever the delay \<open>d0\<close> before the first); when the tick returns, the queue is empty.
\<close>

theorem tick_processes_every_request:
  assumes "custom_display_queue p \<noteq> []"
  shows "run_tick display_normal now p =
           process_requests now (rev (custom_display_queue p)) d0
             (p\<lparr>custom_display_queue := []\<rparr>) \<and>
         (case run_tick display_normal now p of
            Inl e \<Rightarrow> True
          | Inr (d, p') \<Rightarrow> custom_display_queue p' = [])"
proof -
  let ?q = "custom_display_queue p"
  let ?p0 = "p\<lparr>custom_display_queue := []\<rparr>"
  have r: "rev ?q = last ?q # rev (butlast ?q)"
  proof -
    have "rev ?q = rev (butlast ?q @ [last ?q])" using assms by simp
    then show ?thesis by simp
  qed
  have step: "display_custom_loop now (Some d) (p'\<lparr>custom_display_queue := butlast ?q\<rparr>)
                = process_requests now (rev (butlast ?q)) d p'"
    if "display_item now (last ?q) ?p0 = Inr (d, p')" for d p'
  proof -
    have q': "custom_display_queue p' = []"
      using display_item_keeps_queue [OF that] by simp
    let ?p2 = "p'\<lparr>custom_display_queue := butlast ?q\<rparr>"
    have rst: "?p2\<lparr>custom_display_queue := []\<rparr> = p'" using q' by (cases p') simp
    show ?thesis using loop_is_process_requests [of now d ?p2] rst by simp
  qed
  have eq: "run_tick display_normal now p = process_requests now (rev ?q) d0 ?p0"
    unfolding run_tick_def display_custom_def loop_step [OF assms] r process_requests.simps
    using assms step by (auto split: sum.splits)
  have "custom_display_queue p' = []"
    if "process_requests now (rev ?q) d0 ?p0 = Inr (d, p')" for d p'
    using process_requests_keeps_queue [OF that] by simp
  then show ?thesis using eq by (auto split: sum.splits)
qed

theorem tick_processes_every_request_witness:
  "custom_display_queue two_pending \<noteq> [] \<and>
   run_tick id 0 two_pending = process_requests 0 [request_A, request_B] 1 (plugin_init lcd0) \<and>
   (case run_tick id 0 two_pending of
      Inl e \<Rightarrow> True
    | Inr (d, p') \<Rightarrow> custom_display_queue p' = [])"
proof -
  have ne: "custom_display_queue two_pending \<noteq> []"
    by (simp add: two_pending_def display_signal_def)
  have r: "rev (custom_display_queue two_pending) = [request_A, request_B]"
    by (simp add: two_pending_def display_signal_def plugin_init_def)
  have p0: "two_pending\<lparr>custom_display_queue := []\<rparr> = plugin_init lcd0"
    by (simp add: two_pending_def display_signal_def plugin_init_def)
  show ?thesis
    using tick_processes_every_request [OF ne, of id 0 1] ne unfolding r p0 by blast
qed

text \<open>
  Claim C5 as stated fails when two requests are pending. With A enqueued before B, one
  tick returns the delay 3 of B and leaves the queue empty: both requests were taken and
  processed (76 transactions reached the device: a clear of 33 and a line of 5 for
  each), where the claim has A processed and B left in the queue for the next tick.
\<close>

theorem tick_takes_both_requests:
  "custom_display_queue two_pending = [request_B, request_A] \<and>
   (case run_tick id 0 two_pending of
      Inl e \<Rightarrow> False
    | Inr (d, p') \<Rightarrow>
        d = 3 \<and> custom_display_queue p' = [] \<and> length (bus_log (lcd p')) = 76)"
  by code_simp

end
